theory Spec2Isabelle
  imports
    Main
    "HOL-Library.Word"
    "HOL-Library.Extended_Nat"
    "HOL-Library.AList"
    "HOL-Library.List_Lexorder"
    "HOL-Library.Char_ord"
    "HOL-Library.Multiset"
begin

section \<open>JavaScript values used by \<^verbatim>\<open>src/database.ts\<close>\<close>

text \<open>
  A JavaScript string is a sequence of 16-bit code units; \<^verbatim>\<open><\<close> on two strings is the
  lexicographic order of the code units, which is the order on lists of words. \<open>js\<close>
  turns an ASCII literal into such a string.
\<close>

type_synonym code_unit = "16 word"

type_synonym jsstring = "code_unit list"

definition js :: "string \<Rightarrow> jsstring" where
  "js s = map of_char s"

text \<open>
  \<^verbatim>\<open>type Value = string | number\<close>. Every number of this program is the result of
  \<^verbatim>\<open>parseInt\<close> on a string of decimal digits (a cell of the table, or the operand of a
  filter): a double that is a non-negative integer, or \<^verbatim>\<open>Infinity\<close>. These are values of
  \<open>enat\<close>, with the same order; \<^verbatim>\<open>NaN\<close>, negative numbers and fractions do not arise.
\<close>

datatype Value = Str (the_string: jsstring) | Num (the_number: enat)

text \<open>
  What reading \<^verbatim>\<open>obj[key]\<close> gives: the object's own property, or else the member of
  \<^verbatim>\<open>Object.prototype\<close> of that name (every object literal \<^verbatim>\<open>{}\<close> inherits from it), or else
  \<^verbatim>\<open>undefined\<close>.
\<close>

datatype 'a read = Undefined | Own (the_own: 'a) | Proto jsstring

text \<open>
  An object is the list of its own properties in the order of \<^verbatim>\<open>Object.keys\<close>. That is
  insertion order, since no property name of this program is an array index: a header cell
  of digits is cast to a number, which the reader refuses as a column name, and a column
  name of a query is an identifier.
\<close>

type_synonym 'a object = "(jsstring \<times> 'a) list"

definition Object_prototype :: "jsstring list" where
  "Object_prototype =
     [js ''constructor'', js ''__defineGetter__'', js ''__defineSetter__'',
      js ''hasOwnProperty'', js ''__lookupGetter__'', js ''__lookupSetter__'',
      js ''isPrototypeOf'', js ''propertyIsEnumerable'', js ''toString'', js ''valueOf'',
      js ''__proto__'', js ''toLocaleString'']"

definition Object_keys :: "'a object \<Rightarrow> jsstring list" where
  "Object_keys obj = map fst obj"

definition get :: "'a object \<Rightarrow> jsstring \<Rightarrow> 'a read" where
  "get obj key =
     (case map_of obj key of
        Some v \<Rightarrow> Own v
      | None \<Rightarrow> if key \<in> set Object_prototype then Proto key else Undefined)"

text \<open>
  The assignment \<^verbatim>\<open>obj[key] = v\<close>: an existing own property keeps its place, a new one goes
  last. Assigning to \<^verbatim>\<open>__proto__\<close> runs the inherited setter and creates no own property.
  (The setter ignores a string or a number; \<open>project\<close> hands it \<^verbatim>\<open>Object.prototype\<close> itself,
  which changes nothing. The rows of the reader are built by such assignments, so none has
  an own property \<^verbatim>\<open>__proto__\<close> and the constructor never assigns to that name.)
\<close>

definition put :: "'a object \<Rightarrow> jsstring \<Rightarrow> 'a \<Rightarrow> 'a object" where
  "put obj key v = (if key = js ''__proto__'' then obj else AList.update key v obj)"

fun typeof :: "Value read \<Rightarrow> jsstring" where
  "typeof Undefined = js ''undefined''"
| "typeof (Own (Str s)) = js ''string''"
| "typeof (Own (Num n)) = js ''number''"
| "typeof (Proto key) = (if key = js ''__proto__'' then js ''object'' else js ''function'')"

text \<open>
  \<^verbatim>\<open>a < b\<close>. Two strings and two numbers are compared as they are. Any other pair is
  compared after a conversion (of a string to a number, of a function to its source text)
  that is not modelled: \<open>None\<close>. \<^verbatim>\<open>a > b\<close> is \<^verbatim>\<open>b < a\<close>.
\<close>

fun js_lt :: "Value read \<Rightarrow> Value read \<Rightarrow> bool option" where
  "js_lt (Own (Str a)) (Own (Str b)) = Some (a < b)"
| "js_lt (Own (Num a)) (Own (Num b)) = Some (a < b)"
| "js_lt _ _ = None"

definition js_gt :: "Value read \<Rightarrow> Value read \<Rightarrow> bool option" where
  "js_gt a b = js_lt b a"

text \<open>
  The exceptions of the program. \<open>TypeError\<close> is what the runtime throws when a property is
  read from \<^verbatim>\<open>undefined\<close> or a non-function is called. \<open>Coercion\<close> is not an exception: it
  marks a run that reached a comparison \<open>js_lt\<close> does not model.
\<close>

datatype error =
    DataError jsstring
  | QueryError jsstring
  | Error jsstring
  | TypeError
  | Coercion

text \<open>\<^verbatim>\<open>type Row = Record<string, Value>\<close>: a plain object, as the reader builds it.\<close>

type_synonym Row = "Value object"

section \<open>Reading cells\<close>

text \<open>
  The \<^verbatim>\<open>cast\<close> callback of \<open>loadRows\<close>: \<^verbatim>\<open>/^\d+$/.test(value) ? parseInt(value, 10) : value\<close>.
  \<^verbatim>\<open>\d\<close> is one of the code units \<^verbatim>\<open>0\<close> to \<^verbatim>\<open>9\<close>. \<^verbatim>\<open>parseInt\<close> of a digit string takes the
  integer the digits denote (\<open>mathInt\<close>) to the Number value for it (\<open>Number_value\<close>): the
  nearest double, ties to the even significand, \<^verbatim>\<open>Infinity\<close> from \<open>2 ^ 1024\<close> on.
\<close>

definition isDigit :: "code_unit \<Rightarrow> bool" where
  "isDigit c = (48 \<le> c \<and> c \<le> 57)"

definition test_digits :: "jsstring \<Rightarrow> bool" where
  "test_digits s = (s \<noteq> [] \<and> list_all isDigit s)"

definition mathInt :: "jsstring \<Rightarrow> nat" where
  "mathInt s = fold (\<lambda>c n. 10 * n + (unat c - 48)) s 0"

fun bit_length :: "nat \<Rightarrow> nat" where
  "bit_length n = (if n = 0 then 0 else Suc (bit_length (n div 2)))"

definition Number_value :: "nat \<Rightarrow> enat" where
  "Number_value n =
     (let e = bit_length n - 53;
          q = n div 2 ^ e;
          r = n mod 2 ^ e;
          m = (if 2 * r < 2 ^ e \<or> (2 * r = 2 ^ e \<and> even q) then q else q + 1)
      in if 2 ^ 1024 \<le> m * 2 ^ e then \<infinity> else enat (m * 2 ^ e))"

definition parseInt10 :: "jsstring \<Rightarrow> enat" where
  "parseInt10 s = Number_value (mathInt s)"

definition cast :: "jsstring \<Rightarrow> Value" where
  "cast v = (if test_digits v then Num (parseInt10 v) else Str v)"

text \<open>
  \<open>loadRows\<close>. The CSV reader is a library; it is the parameter \<open>parseCsv\<close>, which gets the
  text and the \<^verbatim>\<open>cast\<close> callback and returns the rows or the message of its exception.
\<close>

definition loadRows ::
  "(jsstring \<Rightarrow> (jsstring \<Rightarrow> Value) \<Rightarrow> jsstring + Row list) \<Rightarrow> jsstring \<Rightarrow> error + Row list"
where
  "loadRows parseCsv csv =
     (case parseCsv csv cast of
        Inl message \<Rightarrow> Inl (DataError message)
      | Inr rows \<Rightarrow> Inr rows)"

section \<open>ColumnIndex\<close>

record ColumnIndex =
  column :: jsstring
  rows :: "Row list"

text \<open>The comparator handed to \<^verbatim>\<open>sort\<close> by the constructor.\<close>

definition compareFn :: "jsstring \<Rightarrow> Row \<Rightarrow> Row \<Rightarrow> error + int" where
  "compareFn col a b =
     (case js_lt (get a col) (get b col) of
        None \<Rightarrow> Inl Coercion
      | Some True \<Rightarrow> Inr (- 1)
      | Some False \<Rightarrow>
          (case js_gt (get a col) (get b col) of
             None \<Rightarrow> Inl Coercion
           | Some True \<Rightarrow> Inr 1
           | Some False \<Rightarrow> Inr 0))"

text \<open>
  \<^verbatim>\<open>Array.prototype.sort\<close> is stable, and with a comparator that is a consistent order on
  the elements every engine returns the same array: the stable sorted one, which insertion
  from the right computes. The comparator of the constructor is consistent when it
  returns; when it does not, the sort stops with its outcome.
\<close>

fun insert_sorted :: "('a \<Rightarrow> 'a \<Rightarrow> error + int) \<Rightarrow> 'a \<Rightarrow> 'a list \<Rightarrow> error + 'a list" where
  "insert_sorted cmp x [] = Inr [x]"
| "insert_sorted cmp x (y # ys) =
     (case cmp x y of
        Inl e \<Rightarrow> Inl e
      | Inr c \<Rightarrow>
          if c \<le> 0 then Inr (x # y # ys)
          else (case insert_sorted cmp x ys of
                  Inl e \<Rightarrow> Inl e
                | Inr zs \<Rightarrow> Inr (y # zs)))"

fun Array_sort :: "('a \<Rightarrow> 'a \<Rightarrow> error + int) \<Rightarrow> 'a list \<Rightarrow> error + 'a list" where
  "Array_sort cmp [] = Inr []"
| "Array_sort cmp (x # xs) =
     (case Array_sort cmp xs of
        Inl e \<Rightarrow> Inl e
      | Inr ys \<Rightarrow> insert_sorted cmp x ys)"

definition ColumnIndex_new :: "jsstring \<Rightarrow> Row list \<Rightarrow> error + ColumnIndex" where
  "ColumnIndex_new col rs =
     (case Array_sort (compareFn col) rs of
        Inl e \<Rightarrow> Inl e
      | Inr sorted_rows \<Rightarrow> Inr \<lparr>column = col, rows = sorted_rows\<rparr>)"

text \<open>
  \<^verbatim>\<open>xs[i]\<close> is \<^verbatim>\<open>undefined\<close> out of range (\<open>None\<close>); \<^verbatim>\<open>xs.slice(start, fin)\<close> clamps both
  bounds to the array and counts a negative one from the end.
\<close>

definition Array_get :: "'a list \<Rightarrow> int \<Rightarrow> 'a option" where
  "Array_get xs i = (if 0 \<le> i \<and> i < int (length xs) then Some (xs ! nat i) else None)"

definition Array_slice :: "'a list \<Rightarrow> int \<Rightarrow> int \<Rightarrow> 'a list" where
  "Array_slice xs start fin =
     (let len = int (length xs);
          k = (if start < 0 then max (len + start) 0 else min start len);
          final = (if fin < 0 then max (len + fin) 0 else min fin len)
      in take (nat (final - k)) (drop (nat k) xs))"

text \<open>
  The three binary searches. Each function is the \<^verbatim>\<open>while (left <= right)\<close> loop on the
  variables \<open>left\<close>, \<open>right\<close> and \<open>result\<close>; reading a column of \<^verbatim>\<open>this.rows[mid]\<close> throws when
  \<open>mid\<close> is out of range.
\<close>

function findFirstEqual_loop ::
  "ColumnIndex \<Rightarrow> Value \<Rightarrow> int \<Rightarrow> int \<Rightarrow> int \<Rightarrow> error + int"
where
  "findFirstEqual_loop this v left right result =
     (if left \<le> right then
        (case Array_get (ColumnIndex.rows this) ((left + right) div 2) of
           None \<Rightarrow> Inl TypeError
         | Some row \<Rightarrow>
             (case js_lt (get row (column this)) (Own v) of
                None \<Rightarrow> Inl Coercion
              | Some True \<Rightarrow>
                  findFirstEqual_loop this v ((left + right) div 2 + 1) right result
              | Some False \<Rightarrow>
                  (case js_gt (get row (column this)) (Own v) of
                     None \<Rightarrow> Inl Coercion
                   | Some True \<Rightarrow>
                       findFirstEqual_loop this v left ((left + right) div 2 - 1) result
                   | Some False \<Rightarrow>
                       findFirstEqual_loop this v left ((left + right) div 2 - 1)
                         ((left + right) div 2))))
      else Inr result)"
  by pat_completeness auto
termination
  by (relation "measure (\<lambda>(this, v, left, right, result). nat (right + 1 - left))") auto

definition findFirstEqual :: "ColumnIndex \<Rightarrow> Value \<Rightarrow> error + int" where
  "findFirstEqual this v =
     findFirstEqual_loop this v 0 (int (length (ColumnIndex.rows this)) - 1) (- 1)"

function findLastEqual_loop ::
  "ColumnIndex \<Rightarrow> Value \<Rightarrow> int \<Rightarrow> int \<Rightarrow> int \<Rightarrow> error + int"
where
  "findLastEqual_loop this v left right result =
     (if left \<le> right then
        (case Array_get (ColumnIndex.rows this) ((left + right) div 2) of
           None \<Rightarrow> Inl TypeError
         | Some row \<Rightarrow>
             (case js_lt (get row (column this)) (Own v) of
                None \<Rightarrow> Inl Coercion
              | Some True \<Rightarrow>
                  findLastEqual_loop this v ((left + right) div 2 + 1) right result
              | Some False \<Rightarrow>
                  (case js_gt (get row (column this)) (Own v) of
                     None \<Rightarrow> Inl Coercion
                   | Some True \<Rightarrow>
                       findLastEqual_loop this v left ((left + right) div 2 - 1) result
                   | Some False \<Rightarrow>
                       findLastEqual_loop this v ((left + right) div 2 + 1) right
                         ((left + right) div 2))))
      else Inr result)"
  by pat_completeness auto
termination
  by (relation "measure (\<lambda>(this, v, left, right, result). nat (right + 1 - left))") auto

definition findLastEqual :: "ColumnIndex \<Rightarrow> Value \<Rightarrow> error + int" where
  "findLastEqual this v =
     findLastEqual_loop this v 0 (int (length (ColumnIndex.rows this)) - 1) (- 1)"

function findFirstGreaterThan_loop ::
  "ColumnIndex \<Rightarrow> Value \<Rightarrow> int \<Rightarrow> int \<Rightarrow> int \<Rightarrow> error + int"
where
  "findFirstGreaterThan_loop this v left right result =
     (if left \<le> right then
        (case Array_get (ColumnIndex.rows this) ((left + right) div 2) of
           None \<Rightarrow> Inl TypeError
         | Some row \<Rightarrow>
             (case js_gt (get row (column this)) (Own v) of
                None \<Rightarrow> Inl Coercion
              | Some True \<Rightarrow>
                  findFirstGreaterThan_loop this v left ((left + right) div 2 - 1)
                    ((left + right) div 2)
              | Some False \<Rightarrow>
                  findFirstGreaterThan_loop this v ((left + right) div 2 + 1) right result))
      else Inr result)"
  by pat_completeness auto
termination
  by (relation "measure (\<lambda>(this, v, left, right, result). nat (right + 1 - left))") auto

definition findFirstGreaterThan :: "ColumnIndex \<Rightarrow> Value \<Rightarrow> error + int" where
  "findFirstGreaterThan this v =
     findFirstGreaterThan_loop this v 0 (int (length (ColumnIndex.rows this)) - 1) (- 1)"

definition searchEqual :: "ColumnIndex \<Rightarrow> Value \<Rightarrow> error + Row list" where
  "searchEqual this v =
     (case findFirstEqual this v of
        Inl e \<Rightarrow> Inl e
      | Inr firstIndex \<Rightarrow>
          if firstIndex = - 1 then Inr []
          else (case findLastEqual this v of
                  Inl e \<Rightarrow> Inl e
                | Inr lastIndex \<Rightarrow>
                    Inr (Array_slice (ColumnIndex.rows this) firstIndex (lastIndex + 1))))"

definition searchGreaterThan :: "ColumnIndex \<Rightarrow> Value \<Rightarrow> error + Row list" where
  "searchGreaterThan this v =
     (case findFirstGreaterThan this v of
        Inl e \<Rightarrow> Inl e
      | Inr index \<Rightarrow>
          if index = - 1 then Inr []
          else Inr (Array_slice (ColumnIndex.rows this) index
                      (int (length (ColumnIndex.rows this)))))"

section \<open>Database\<close>

datatype ColumnType = STRING | NUMBER

text \<open>The enum's members are the strings \<^verbatim>\<open>"string"\<close> and \<^verbatim>\<open>"number"\<close>.\<close>

fun ColumnType_value :: "ColumnType \<Rightarrow> jsstring" where
  "ColumnType_value STRING = js ''string''"
| "ColumnType_value NUMBER = js ''number''"

record QueryFilter =
  column :: jsstring
  op :: jsstring
  operand :: Value

record Query =
  columns :: "jsstring list"
  filter_opt :: "QueryFilter option"

text \<open>
  \<^verbatim>\<open>type QueryFilterOp = "=" | ">"\<close>: the declared type of the field \<open>op\<close>. The field itself
  holds the string the parser produced.
\<close>

definition QueryFilterOp :: "jsstring \<Rightarrow> bool" where
  "QueryFilterOp s = (s = js ''='' \<or> s = js ''>'')"

text \<open>
  A projected row holds, for each requested column, whatever reading that column from the
  source row gave.
\<close>

type_synonym ProjectedRow = "Value read object"

record QueryResult =
  columns :: "jsstring list"
  rows :: "ProjectedRow list"

record Database =
  columnTypes :: "ColumnType object"
  columnIndices :: "ColumnIndex object"
  rows :: "Row list"

text \<open>\<open>buildColumnTypes\<close>: the \<^verbatim>\<open>reduce\<close> over the columns, from the accumulator \<^verbatim>\<open>{}\<close>.\<close>

fun buildColumnTypes_reduce ::
  "jsstring list \<Rightarrow> Row list \<Rightarrow> ColumnType object \<Rightarrow> error + ColumnType object"
where
  "buildColumnTypes_reduce [] rs acc = Inr acc"
| "buildColumnTypes_reduce (col # cols) rs acc =
     (let allStrings = list_all (\<lambda>row. typeof (get row col) = js ''string'') rs;
          allNumbers = list_all (\<lambda>row. typeof (get row col) = js ''number'') rs
      in if \<not> allStrings \<and> \<not> allNumbers then
           Inl (DataError (js ''Mixed types in column '' @ [34] @ col @ [34] @ js ''.''))
         else buildColumnTypes_reduce cols rs
                (put acc col (if allNumbers then NUMBER else STRING)))"

definition buildColumnTypes :: "jsstring list \<Rightarrow> Row list \<Rightarrow> error + ColumnType object" where
  "buildColumnTypes cols rs = buildColumnTypes_reduce cols rs []"

fun buildColumnIndices_reduce ::
  "jsstring list \<Rightarrow> Row list \<Rightarrow> ColumnIndex object \<Rightarrow> error + ColumnIndex object"
where
  "buildColumnIndices_reduce [] dat acc = Inr acc"
| "buildColumnIndices_reduce (col # cols) dat acc =
     (case ColumnIndex_new col dat of
        Inl e \<Rightarrow> Inl e
      | Inr index \<Rightarrow> buildColumnIndices_reduce cols dat (put acc col index))"

definition buildColumnIndices ::
  "jsstring list \<Rightarrow> Row list \<Rightarrow> error + ColumnIndex object"
where
  "buildColumnIndices cols dat = buildColumnIndices_reduce cols dat []"

text \<open>
  \<open>loadData\<close>, on the rows \<open>loadRows\<close> returned. It runs inside the constructor, so an
  exception leaves no table: the result is the exception alone.
\<close>

definition loadData :: "Row list \<Rightarrow> error + Database" where
  "loadData rs =
     (if length rs = 0 then
        Inl (DataError (js ''Loaded data must contain at least one row.''))
      else
        (case buildColumnTypes (Object_keys (rs ! 0)) rs of
           Inl e \<Rightarrow> Inl e
         | Inr types \<Rightarrow>
             (case buildColumnIndices (Object_keys (rs ! 0)) rs of
                Inl e \<Rightarrow> Inl e
              | Inr indices \<Rightarrow>
                  Inr \<lparr>columnTypes = types, columnIndices = indices, rows = rs\<rparr>)))"

text \<open>The constructor: \<open>loadRows\<close>, then \<open>loadData\<close>.\<close>

definition Database_new ::
  "(jsstring \<Rightarrow> (jsstring \<Rightarrow> Value) \<Rightarrow> jsstring + Row list) \<Rightarrow> jsstring \<Rightarrow> error + Database"
where
  "Database_new parseCsv csv =
     (case loadRows parseCsv csv of
        Inl e \<Rightarrow> Inl e
      | Inr rs \<Rightarrow> loadData rs)"

text \<open>
  \<open>parseQuery\<close>. The generated parser is the parameter \<open>queryParser\<close>: the structured query,
  or the message of its syntax error.
\<close>

definition parseQuery :: "(jsstring \<Rightarrow> jsstring + Query) \<Rightarrow> jsstring \<Rightarrow> error + Query" where
  "parseQuery queryParser text =
     (case queryParser text of
        Inl message \<Rightarrow> Inl (QueryError message)
      | Inr q \<Rightarrow> Inr q)"

fun validateColumns :: "Database \<Rightarrow> jsstring list \<Rightarrow> error + unit" where
  "validateColumns this [] = Inr ()"
| "validateColumns this (col # cols) =
     (if get (columnTypes this) col = Undefined then
        Inl (QueryError (js ''Unknown column: '' @ col))
      else validateColumns this cols)"

definition validateQuery :: "Database \<Rightarrow> Query \<Rightarrow> error + unit" where
  "validateQuery this q =
     (case validateColumns this (Query.columns q) of
        Inl e \<Rightarrow> Inl e
      | Inr u \<Rightarrow>
          (case filter_opt q of
             None \<Rightarrow> Inr ()
           | Some f \<Rightarrow>
               if get (columnTypes this) (QueryFilter.column f) = Undefined then
                 Inl (QueryError (js ''Unknown column: '' @ QueryFilter.column f))
               else if (case get (columnTypes this) (QueryFilter.column f) of
                          Own t \<Rightarrow> ColumnType_value t \<noteq> typeof (Own (operand f))
                        | other \<Rightarrow> True) then
                 Inl (QueryError (js ''Invalid value type: '' @ typeof (Own (operand f))))
               else Inr ()))"

text \<open>
  \<open>filter\<close>. Calling a search method on anything but an index (an absent or an inherited
  property of \<open>columnIndices\<close>) throws.
\<close>

definition filter_rows :: "Database \<Rightarrow> Row list \<Rightarrow> QueryFilter \<Rightarrow> error + Row list" where
  "filter_rows this rs f =
     (if op f = js ''='' then
        (case get (columnIndices this) (QueryFilter.column f) of
           Own columnIndex \<Rightarrow> searchEqual columnIndex (operand f)
         | other \<Rightarrow> Inl TypeError)
      else if op f = js ''>'' then
        (case get (columnIndices this) (QueryFilter.column f) of
           Own columnIndex \<Rightarrow> searchGreaterThan columnIndex (operand f)
         | other \<Rightarrow> Inl TypeError)
      else Inl (Error (js ''Unknown filter operation: '' @ op f)))"

definition project_row :: "jsstring list \<Rightarrow> Row \<Rightarrow> ProjectedRow" where
  "project_row cols row = fold (\<lambda>col acc. put acc col (get row col)) cols []"

definition project :: "Row list \<Rightarrow> jsstring list \<Rightarrow> ProjectedRow list" where
  "project rs cols = map (project_row cols) rs"

text \<open>
  \<open>query\<close>, with the table passed in and handed back: the result or the exception, and the
  table as the call leaves it.
\<close>

definition query ::
  "(jsstring \<Rightarrow> jsstring + Query) \<Rightarrow> jsstring \<Rightarrow> Database \<Rightarrow> (error + QueryResult) \<times> Database"
where
  "query queryParser text this =
     (case parseQuery queryParser text of
        Inl e \<Rightarrow> (Inl e, this)
      | Inr parsedQuery \<Rightarrow>
          (case validateQuery this parsedQuery of
             Inl e \<Rightarrow> (Inl e, this)
           | Inr u \<Rightarrow>
               (case (case filter_opt parsedQuery of
                        None \<Rightarrow> Inr (Database.rows this)
                      | Some f \<Rightarrow> filter_rows this (Database.rows this) f) of
                  Inl e \<Rightarrow> (Inl e, this)
                | Inr rs \<Rightarrow>
                    (Inr \<lparr>columns = Query.columns parsedQuery,
                          rows = project rs (Query.columns parsedQuery)\<rparr>,
                     this))))"

section \<open>Doubles\<close>

text \<open>
  A double has 53 significant bits. Among the non-negative integers, the values a double
  can take (with no bound on the exponent) are those whose bits below the top 53 are zero.
\<close>

definition significant53 :: "nat \<Rightarrow> bool" where
  "significant53 m = (2 ^ (bit_length m - 53) dvd m)"

section \<open>Keys of a column\<close>

text \<open>The number, or the string, that a row holds in a column.\<close>

definition number_key :: "jsstring \<Rightarrow> Row \<Rightarrow> enat" where
  "number_key col row = the_number (the_own (get row col))"

definition string_key :: "jsstring \<Rightarrow> Row \<Rightarrow> jsstring" where
  "string_key col row = the_string (the_own (get row col))"

section \<open>The table of the test suite\<close>

text \<open>
  The five books that the tests of \<^verbatim>\<open>database.test.ts\<close> expect from \<^verbatim>\<open>examples/books.csv\<close>, in
  load order, and the table the constructor builds from them.
\<close>

definition book :: "string \<Rightarrow> string \<Rightarrow> enat \<Rightarrow> Row" where
  "book title author year =
     [(js ''title'', Str (js title)), (js ''author'', Str (js author)), (js ''year'', Num year)]"

definition books :: "Row list" where
  "books =
     [book ''Game Programming Patterns'' ''Robert Nystrom'' 2014,
      book ''Exhalation'' ''Ted Chiang'' 2019,
      book ''Crafting Interpreters'' ''Robert Nystrom'' 2021,
      book ''Python Distilled'' ''David Beazley'' 2021,
      book ''The Maniac'' ''Benjamin Labatut'' 2023]"

definition books_db :: Database where
  "books_db =
     \<lparr>columnTypes = [(js ''title'', STRING), (js ''author'', STRING), (js ''year'', NUMBER)],
      columnIndices =
        [(js ''title'',
          \<lparr>ColumnIndex.column = js ''title'',
           ColumnIndex.rows =
             [book ''Crafting Interpreters'' ''Robert Nystrom'' 2021,
              book ''Exhalation'' ''Ted Chiang'' 2019,
              book ''Game Programming Patterns'' ''Robert Nystrom'' 2014,
              book ''Python Distilled'' ''David Beazley'' 2021,
              book ''The Maniac'' ''Benjamin Labatut'' 2023]\<rparr>),
         (js ''author'',
          \<lparr>ColumnIndex.column = js ''author'',
           ColumnIndex.rows =
             [book ''The Maniac'' ''Benjamin Labatut'' 2023,
              book ''Python Distilled'' ''David Beazley'' 2021,
              book ''Game Programming Patterns'' ''Robert Nystrom'' 2014,
              book ''Crafting Interpreters'' ''Robert Nystrom'' 2021,
              book ''Exhalation'' ''Ted Chiang'' 2019]\<rparr>),
         (js ''year'',
          \<lparr>ColumnIndex.column = js ''year'',
           ColumnIndex.rows =
             [book ''Game Programming Patterns'' ''Robert Nystrom'' 2014,
              book ''Exhalation'' ''Ted Chiang'' 2019,
              book ''Crafting Interpreters'' ''Robert Nystrom'' 2021,
              book ''Python Distilled'' ''David Beazley'' 2021,
              book ''The Maniac'' ''Benjamin Labatut'' 2023]\<rparr>)],
      rows = books\<rparr>"

text \<open>A parser, standing for the generated one on a text whose parse is \<open>q\<close>.\<close>

definition parsed_as :: "Query \<Rightarrow> jsstring \<Rightarrow> jsstring + Query" where
  "parsed_as q text = Inr q"

section \<open>The heap\<close>

text \<open>
  \<open>query\<close> allocates: \<^verbatim>\<open>slice\<close>, \<^verbatim>\<open>map\<close> and the literal \<^verbatim>\<open>[]\<close> make a new array, the reducer
  of \<open>project\<close> starts from a new object \<^verbatim>\<open>{}\<close> and assigns to it. To tell what a query
  writes, the methods that \<open>query\<close> reaches are translated once more, over a store: objects
  and arrays live at addresses, an array holds the addresses of its rows, an allocation
  takes the next address, and an assignment to a property replaces the object at the
  address assigned to. Every method takes the store it runs in; a method that allocates or
  assigns returns the store it leaves.
\<close>

type_synonym addr = nat

type_synonym jsobject = "Value read object"

text \<open>
  A property of a stored object holds what a read of a row can give: a cell, \<^verbatim>\<open>undefined\<close>
  or a member of \<^verbatim>\<open>Object.prototype\<close> (\<open>project\<close> copies \<^verbatim>\<open>row[column]\<close> whatever it is).
  \<open>get_stored\<close> is the read \<^verbatim>\<open>obj[key]\<close> of a stored object.
\<close>

definition get_stored :: "jsobject \<Rightarrow> jsstring \<Rightarrow> Value read" where
  "get_stored obj key =
     (case get obj key of Own v \<Rightarrow> v | Undefined \<Rightarrow> Undefined | Proto k \<Rightarrow> Proto k)"

record store =
  objects :: "jsobject list"
  arrays :: "addr list list"

definition object_at :: "store \<Rightarrow> addr \<Rightarrow> jsobject option" where
  "object_at st a = (if a < length (objects st) then Some (objects st ! a) else None)"

definition array_at :: "store \<Rightarrow> addr \<Rightarrow> addr list option" where
  "array_at st a = (if a < length (arrays st) then Some (arrays st ! a) else None)"

text \<open>The literals \<^verbatim>\<open>{}\<close> and \<^verbatim>\<open>[...]\<close>, and the assignment \<^verbatim>\<open>obj[key] = v\<close>.\<close>

definition new_object :: "store \<Rightarrow> addr \<times> store" where
  "new_object st = (length (objects st), st\<lparr>objects := objects st @ [[]]\<rparr>)"

definition new_array :: "addr list \<Rightarrow> store \<Rightarrow> addr \<times> store" where
  "new_array xs st = (length (arrays st), st\<lparr>arrays := arrays st @ [xs]\<rparr>)"

definition set_property :: "store \<Rightarrow> addr \<Rightarrow> jsstring \<Rightarrow> Value read \<Rightarrow> store option" where
  "set_property st a key v =
     (case object_at st a of
        None \<Rightarrow> None
      | Some obj \<Rightarrow> Some (st\<lparr>objects := (objects st)[a := put obj key v]\<rparr>))"

text \<open>
  The fields of a \<open>ColumnIndex\<close> (\<^verbatim>\<open>private readonly\<close>) and of a \<open>Database\<close> are assigned by
  the constructors only; the methods below read them. \<open>this\<close> is the record of what the
  fields hold: the column name, and the addresses of the schema object and of the arrays.
  A query result is the new object \<^verbatim>\<open>{columns, rows}\<close>.
\<close>

record ColumnIndex_ref =
  index_column :: jsstring
  index_rows :: addr

record Database_ref =
  columnTypes_ref :: addr
  columnIndices_ref :: "ColumnIndex_ref object"
  rows_ref :: addr

record QueryResult_ref =
  result_columns :: "jsstring list"
  result_rows :: addr

text \<open>
  The binary searches assign to their local variables only; they read \<^verbatim>\<open>this.rows[mid]\<close>
  and \<^verbatim>\<open>row[this.column]\<close> from the store.
\<close>

function st_findFirstEqual_loop ::
  "store \<Rightarrow> ColumnIndex_ref \<Rightarrow> Value \<Rightarrow> int \<Rightarrow> int \<Rightarrow> int \<Rightarrow> error + int"
where
  "st_findFirstEqual_loop st this v left right result =
     (if left \<le> right then
        (case array_at st (index_rows this) of
           None \<Rightarrow> Inl TypeError
         | Some rs \<Rightarrow>
        (case Array_get rs ((left + right) div 2) of
           None \<Rightarrow> Inl TypeError
         | Some a \<Rightarrow>
        (case object_at st a of
           None \<Rightarrow> Inl TypeError
         | Some row \<Rightarrow>
             (case js_lt (get_stored row (index_column this)) (Own v) of
                None \<Rightarrow> Inl Coercion
              | Some True \<Rightarrow>
                  st_findFirstEqual_loop st this v ((left + right) div 2 + 1) right result
              | Some False \<Rightarrow>
                  (case js_gt (get_stored row (index_column this)) (Own v) of
                     None \<Rightarrow> Inl Coercion
                   | Some True \<Rightarrow>
                       st_findFirstEqual_loop st this v left ((left + right) div 2 - 1) result
                   | Some False \<Rightarrow>
                       st_findFirstEqual_loop st this v left ((left + right) div 2 - 1)
                         ((left + right) div 2))))))
      else Inr result)"
  by pat_completeness auto
termination
  by (relation "measure (\<lambda>(st, this, v, left, right, result). nat (right + 1 - left))") auto

function st_findLastEqual_loop ::
  "store \<Rightarrow> ColumnIndex_ref \<Rightarrow> Value \<Rightarrow> int \<Rightarrow> int \<Rightarrow> int \<Rightarrow> error + int"
where
  "st_findLastEqual_loop st this v left right result =
     (if left \<le> right then
        (case array_at st (index_rows this) of
           None \<Rightarrow> Inl TypeError
         | Some rs \<Rightarrow>
        (case Array_get rs ((left + right) div 2) of
           None \<Rightarrow> Inl TypeError
         | Some a \<Rightarrow>
        (case object_at st a of
           None \<Rightarrow> Inl TypeError
         | Some row \<Rightarrow>
             (case js_lt (get_stored row (index_column this)) (Own v) of
                None \<Rightarrow> Inl Coercion
              | Some True \<Rightarrow>
                  st_findLastEqual_loop st this v ((left + right) div 2 + 1) right result
              | Some False \<Rightarrow>
                  (case js_gt (get_stored row (index_column this)) (Own v) of
                     None \<Rightarrow> Inl Coercion
                   | Some True \<Rightarrow>
                       st_findLastEqual_loop st this v left ((left + right) div 2 - 1) result
                   | Some False \<Rightarrow>
                       st_findLastEqual_loop st this v ((left + right) div 2 + 1) right
                         ((left + right) div 2))))))
      else Inr result)"
  by pat_completeness auto
termination
  by (relation "measure (\<lambda>(st, this, v, left, right, result). nat (right + 1 - left))") auto

function st_findFirstGreaterThan_loop ::
  "store \<Rightarrow> ColumnIndex_ref \<Rightarrow> Value \<Rightarrow> int \<Rightarrow> int \<Rightarrow> int \<Rightarrow> error + int"
where
  "st_findFirstGreaterThan_loop st this v left right result =
     (if left \<le> right then
        (case array_at st (index_rows this) of
           None \<Rightarrow> Inl TypeError
         | Some rs \<Rightarrow>
        (case Array_get rs ((left + right) div 2) of
           None \<Rightarrow> Inl TypeError
         | Some a \<Rightarrow>
        (case object_at st a of
           None \<Rightarrow> Inl TypeError
         | Some row \<Rightarrow>
             (case js_gt (get_stored row (index_column this)) (Own v) of
                None \<Rightarrow> Inl Coercion
              | Some True \<Rightarrow>
                  st_findFirstGreaterThan_loop st this v left ((left + right) div 2 - 1)
                    ((left + right) div 2)
              | Some False \<Rightarrow>
                  st_findFirstGreaterThan_loop st this v ((left + right) div 2 + 1) right
                    result))))
      else Inr result)"
  by pat_completeness auto
termination
  by (relation "measure (\<lambda>(st, this, v, left, right, result). nat (right + 1 - left))") auto

definition array_length :: "store \<Rightarrow> addr \<Rightarrow> int" where
  "array_length st a = (case array_at st a of None \<Rightarrow> 0 | Some rs \<Rightarrow> int (length rs))"

definition st_findFirstEqual :: "store \<Rightarrow> ColumnIndex_ref \<Rightarrow> Value \<Rightarrow> error + int" where
  "st_findFirstEqual st this v =
     st_findFirstEqual_loop st this v 0 (array_length st (index_rows this) - 1) (- 1)"

definition st_findLastEqual :: "store \<Rightarrow> ColumnIndex_ref \<Rightarrow> Value \<Rightarrow> error + int" where
  "st_findLastEqual st this v =
     st_findLastEqual_loop st this v 0 (array_length st (index_rows this) - 1) (- 1)"

definition st_findFirstGreaterThan :: "store \<Rightarrow> ColumnIndex_ref \<Rightarrow> Value \<Rightarrow> error + int" where
  "st_findFirstGreaterThan st this v =
     st_findFirstGreaterThan_loop st this v 0 (array_length st (index_rows this) - 1) (- 1)"

text \<open>\<^verbatim>\<open>this.rows.slice(start, end)\<close>: a new array of the same row addresses.\<close>

definition st_slice :: "store \<Rightarrow> addr \<Rightarrow> int \<Rightarrow> int \<Rightarrow> (error + addr) \<times> store" where
  "st_slice st a start fin =
     (case array_at st a of
        None \<Rightarrow> (Inl TypeError, st)
      | Some rs \<Rightarrow> apfst Inr (new_array (Array_slice rs start fin) st))"

definition st_searchEqual :: "store \<Rightarrow> ColumnIndex_ref \<Rightarrow> Value \<Rightarrow> (error + addr) \<times> store" where
  "st_searchEqual st this v =
     (case st_findFirstEqual st this v of
        Inl e \<Rightarrow> (Inl e, st)
      | Inr firstIndex \<Rightarrow>
          if firstIndex = - 1 then apfst Inr (new_array [] st)
          else (case st_findLastEqual st this v of
                  Inl e \<Rightarrow> (Inl e, st)
                | Inr lastIndex \<Rightarrow> st_slice st (index_rows this) firstIndex (lastIndex + 1)))"

definition st_searchGreaterThan ::
  "store \<Rightarrow> ColumnIndex_ref \<Rightarrow> Value \<Rightarrow> (error + addr) \<times> store"
where
  "st_searchGreaterThan st this v =
     (case st_findFirstGreaterThan st this v of
        Inl e \<Rightarrow> (Inl e, st)
      | Inr index \<Rightarrow>
          if index = - 1 then apfst Inr (new_array [] st)
          else st_slice st (index_rows this) index (array_length st (index_rows this)))"

text \<open>\<open>validateQuery\<close> reads the schema object.\<close>

fun st_validateColumns :: "store \<Rightarrow> Database_ref \<Rightarrow> jsstring list \<Rightarrow> error + unit" where
  "st_validateColumns st this [] = Inr ()"
| "st_validateColumns st this (col # cols) =
     (case object_at st (columnTypes_ref this) of
        None \<Rightarrow> Inl TypeError
      | Some types \<Rightarrow>
          if get_stored types col = Undefined then
            Inl (QueryError (js ''Unknown column: '' @ col))
          else st_validateColumns st this cols)"

definition st_validateQuery :: "store \<Rightarrow> Database_ref \<Rightarrow> Query \<Rightarrow> error + unit" where
  "st_validateQuery st this q =
     (case st_validateColumns st this (Query.columns q) of
        Inl e \<Rightarrow> Inl e
      | Inr u \<Rightarrow>
          (case filter_opt q of
             None \<Rightarrow> Inr ()
           | Some f \<Rightarrow>
               (case object_at st (columnTypes_ref this) of
                  None \<Rightarrow> Inl TypeError
                | Some types \<Rightarrow>
                    if get_stored types (QueryFilter.column f) = Undefined then
                      Inl (QueryError (js ''Unknown column: '' @ QueryFilter.column f))
                    else if get_stored types (QueryFilter.column f)
                            \<noteq> Own (Str (typeof (Own (operand f)))) then
                      Inl (QueryError (js ''Invalid value type: '' @ typeof (Own (operand f))))
                    else Inr ())))"

definition st_filter ::
  "store \<Rightarrow> Database_ref \<Rightarrow> addr \<Rightarrow> QueryFilter \<Rightarrow> (error + addr) \<times> store"
where
  "st_filter st this rs f =
     (if op f = js ''='' then
        (case get (columnIndices_ref this) (QueryFilter.column f) of
           Own columnIndex \<Rightarrow> st_searchEqual st columnIndex (operand f)
         | other \<Rightarrow> (Inl TypeError, st))
      else if op f = js ''>'' then
        (case get (columnIndices_ref this) (QueryFilter.column f) of
           Own columnIndex \<Rightarrow> st_searchGreaterThan st columnIndex (operand f)
         | other \<Rightarrow> (Inl TypeError, st))
      else (Inl (Error (js ''Unknown filter operation: '' @ op f)), st))"

text \<open>
  \<open>project\<close>. \<^verbatim>\<open>columns.reduce((acc, column) => { acc[column] = row[column]; return acc; }, {})\<close>
  assigns to the object at \<open>acc\<close>; \<^verbatim>\<open>rows.map\<close> allocates one such object for each row and
  then the array of their addresses.
\<close>

fun st_reduce :: "store \<Rightarrow> addr \<Rightarrow> jsstring list \<Rightarrow> addr \<Rightarrow> (error + addr) \<times> store" where
  "st_reduce st row [] acc = (Inr acc, st)"
| "st_reduce st row (col # cols) acc =
     (case object_at st row of
        None \<Rightarrow> (Inl TypeError, st)
      | Some r \<Rightarrow>
          (case set_property st acc col (get_stored r col) of
             None \<Rightarrow> (Inl TypeError, st)
           | Some st' \<Rightarrow> st_reduce st' row cols acc))"

fun st_map :: "store \<Rightarrow> addr list \<Rightarrow> jsstring list \<Rightarrow> (error + addr list) \<times> store" where
  "st_map st [] cols = (Inr [], st)"
| "st_map st (row # rs) cols =
     (case new_object st of
        (acc, st1) \<Rightarrow>
          (case st_reduce st1 row cols acc of
             (Inl e, st2) \<Rightarrow> (Inl e, st2)
           | (Inr a, st2) \<Rightarrow>
               (case st_map st2 rs cols of
                  (Inl e, st3) \<Rightarrow> (Inl e, st3)
                | (Inr as, st3) \<Rightarrow> (Inr (a # as), st3))))"

definition st_project :: "store \<Rightarrow> addr \<Rightarrow> jsstring list \<Rightarrow> (error + addr) \<times> store" where
  "st_project st rs cols =
     (case array_at st rs of
        None \<Rightarrow> (Inl TypeError, st)
      | Some refs \<Rightarrow>
          (case st_map st refs cols of
             (Inl e, st') \<Rightarrow> (Inl e, st')
           | (Inr as, st') \<Rightarrow> apfst Inr (new_array as st')))"

definition st_query ::
  "(jsstring \<Rightarrow> jsstring + Query) \<Rightarrow> jsstring \<Rightarrow> Database_ref \<Rightarrow> store
     \<Rightarrow> (error + QueryResult_ref) \<times> store"
where
  "st_query queryParser text this st =
     (case parseQuery queryParser text of
        Inl e \<Rightarrow> (Inl e, st)
      | Inr parsedQuery \<Rightarrow>
          (case st_validateQuery st this parsedQuery of
             Inl e \<Rightarrow> (Inl e, st)
           | Inr u \<Rightarrow>
               (case (case filter_opt parsedQuery of
                        None \<Rightarrow> (Inr (rows_ref this), st)
                      | Some f \<Rightarrow> st_filter st this (rows_ref this) f) of
                  (Inl e, st1) \<Rightarrow> (Inl e, st1)
                | (Inr rs, st1) \<Rightarrow>
                    (case st_project st1 rs (Query.columns parsedQuery) of
                       (Inl e, st2) \<Rightarrow> (Inl e, st2)
                     | (Inr projected, st2) \<Rightarrow>
                         (Inr \<lparr>result_columns = Query.columns parsedQuery,
                               result_rows = projected\<rparr>,
                          st2)))))"

text \<open>
  A store holds a table when the schema object, the array of rows and the array of every
  index are in it, with the contents the table has. \<open>outcome_in\<close> reads a result back from
  the store.
\<close>

definition row_object :: "Row \<Rightarrow> jsobject" where
  "row_object row = map (\<lambda>(key, v). (key, Own v)) row"

definition types_object :: "ColumnType object \<Rightarrow> jsobject" where
  "types_object types = map (\<lambda>(key, t). (key, Own (Str (ColumnType_value t)))) types"

definition rows_in :: "store \<Rightarrow> addr \<Rightarrow> jsobject list option" where
  "rows_in st a =
     (case array_at st a of
        None \<Rightarrow> None
      | Some refs \<Rightarrow> those (map (object_at st) refs))"

definition holds_rows :: "store \<Rightarrow> addr \<Rightarrow> Row list \<Rightarrow> bool" where
  "holds_rows st a rs = (rows_in st a = Some (map row_object rs))"

definition represents :: "store \<Rightarrow> Database_ref \<Rightarrow> Database \<Rightarrow> bool" where
  "represents st this db =
     (object_at st (columnTypes_ref this) = Some (types_object (columnTypes db)) \<and>
      holds_rows st (rows_ref this) (Database.rows db) \<and>
      list_all2
        (\<lambda>(key, ref) (key', index).
           key = key' \<and> index_column ref = ColumnIndex.column index \<and>
           holds_rows st (index_rows ref) (ColumnIndex.rows index))
        (columnIndices_ref this) (columnIndices db))"

definition outcome_in :: "store \<Rightarrow> error + QueryResult_ref \<Rightarrow> (error + QueryResult) option" where
  "outcome_in st out =
     (case out of
        Inl e \<Rightarrow> Some (Inl e)
      | Inr r \<Rightarrow>
          map_option
            (\<lambda>rs. Inr \<lparr>QueryResult.columns = result_columns r, QueryResult.rows = rs\<rparr>)
            (rows_in st (result_rows r)))"

text \<open>All that is in \<open>st\<close> is in \<open>st'\<close>, at the same address and with the same contents.\<close>

definition preserved :: "store \<Rightarrow> store \<Rightarrow> bool" where
  "preserved st st' =
     (take (length (objects st)) (objects st') = objects st \<and>
      take (length (arrays st)) (arrays st') = arrays st)"

text \<open>A run that allocates, against its outcome without the store: an exception leaves the
  store as it was, a result is in a new array and all that was in the store is still there.\<close>

definition search_refines ::
  "store \<Rightarrow> (error + addr) \<times> store \<Rightarrow> error + Row list \<Rightarrow> bool"
where
  "search_refines st run pure =
     (case pure of
        Inl e \<Rightarrow> run = (Inl e, st)
      | Inr rs \<Rightarrow>
          (\<exists>a st'. run = (Inr a, st') \<and> preserved st st' \<and> holds_rows st' a rs))"

text \<open>
  The table of the test suite in a store: the five rows at addresses 0 to 4, the schema
  object at 5; the array of rows and the arrays of the three indices hold the addresses
  of the same five objects.
\<close>

definition books_store :: store where
  "books_store =
     \<lparr>objects =
        map row_object books @
        [types_object [(js ''title'', STRING), (js ''author'', STRING), (js ''year'', NUMBER)]],
      arrays = [[0, 1, 2, 3, 4], [2, 1, 0, 3, 4], [4, 3, 0, 2, 1], [0, 1, 2, 3, 4]]\<rparr>"

definition books_ref :: Database_ref where
  "books_ref =
     \<lparr>columnTypes_ref = 5,
      columnIndices_ref =
        [(js ''title'', \<lparr>index_column = js ''title'', index_rows = 1\<rparr>),
         (js ''author'', \<lparr>index_column = js ''author'', index_rows = 2\<rparr>),
         (js ''year'', \<lparr>index_column = js ''year'', index_rows = 3\<rparr>)],
      rows_ref = 0\<rparr>"

section \<open>String literals\<close>

text \<open>
  \<open>js\<close> is injective and monotone, so that equality and order of literals are decided on the
  literals themselves.
\<close>

lemma of_char_less_256: "(of_char c :: nat) < 256"
proof -
  have "(of_char c :: nat) mod 256 = of_char c" by (rule of_char_mod_256)
  moreover have "(of_char c :: nat) mod 256 < 256" by simp
  ultimately show ?thesis by simp
qed

lemma unat_of_char: "unat (of_char c :: code_unit) = of_char c"
proof -
  have "(of_char c :: code_unit) = of_nat (of_char c)" by (simp add: of_nat_of_char)
  then have "unat (of_char c :: code_unit) = (of_char c :: nat) mod 2 ^ 16"
    by (simp add: unat_of_nat)
  then show ?thesis using of_char_less_256 [of c] by simp
qed

lemma inj_code_unit: "inj (of_char :: char \<Rightarrow> code_unit)"
proof (rule injI)
  fix a b assume "(of_char a :: code_unit) = of_char b"
  then have "unat (of_char a :: code_unit) = unat (of_char b :: code_unit)" by simp
  then have "(of_char a :: nat) = of_char b" by (simp add: unat_of_char)
  then show "a = b" by (rule of_char_eqI)
qed

lemma js_eq_iff: "js a = js b \<longleftrightarrow> a = b"
  by (simp add: js_def inj_map_eq_map inj_code_unit)

lemma js_Nil: "js a = [] \<longleftrightarrow> a = []"
  by (simp add: js_def)


lemma code_unit_less_iff: "(of_char a :: code_unit) < of_char b \<longleftrightarrow> a < b"
  by (simp add: word_less_nat_alt unat_of_char less_char_def)

lemma js_less_iff: "js a < js b \<longleftrightarrow> a < b"
proof (induction a arbitrary: b)
  case Nil
  then show ?case by (cases b) (simp_all add: js_def)
next
  case (Cons x xs)
  show ?case
  proof (cases b)
    case Nil
    then show ?thesis by (simp add: js_def)
  next
    case (Cons y ys)
    then show ?thesis
      using Cons.IH [of ys]
      by (simp add: js_def code_unit_less_iff inj_eq [OF inj_code_unit])
  qed
qed

section \<open>Rounding of integers to doubles\<close>

declare bit_length.simps [simp del]

lemma bit_length_0: "bit_length 0 = 0"
  by (subst bit_length.simps) simp

lemma bit_length_1: "bit_length (Suc 0) = Suc 0"
  by (subst bit_length.simps) (simp add: bit_length_0)

lemma bit_length_numeral:
  "bit_length (numeral (Num.Bit0 k)) = Suc (bit_length (numeral k))"
  "bit_length (numeral (Num.Bit1 k)) = Suc (bit_length (numeral k))"
  by (subst bit_length.simps, simp add: numeral_Bit0_div_2 numeral_Bit1_div_2)+

lemma bit_length_le: "n < 2 ^ k \<Longrightarrow> bit_length n \<le> k"
proof (induction k arbitrary: n)
  case 0
  then show ?case by (simp add: bit_length_0)
next
  case (Suc k)
  have "n div 2 < 2 ^ k" using Suc.prems by simp
  then have "bit_length (n div 2) \<le> k" by (rule Suc.IH)
  then show ?case by (simp add: bit_length.simps [of n])
qed

lemma Number_value_small: "n < 2 ^ 53 \<Longrightarrow> Number_value n = enat n"
proof -
  assume n: "n < 2 ^ 53"
  then have "bit_length n - 53 = 0" using bit_length_le [of n 53] by simp
  moreover have "n < 2 ^ 1024"
    using n power_strict_increasing [of 53 1024 "2::nat"] by simp
  ultimately show ?thesis by (simp add: Number_value_def)
qed

lemma Number_value_2_53: "Number_value 9007199254740992 = enat 9007199254740992"
  by (simp add: Number_value_def bit_length_numeral bit_length_1)

lemma Number_value_exact: "n \<le> 2 ^ 53 \<Longrightarrow> Number_value n = enat n"
  using Number_value_small [of n] Number_value_2_53 by (cases "n = 2 ^ 53") simp_all

text \<open>
  \<open>Number_value\<close> rounds to nearest, ties to even: its result is the 53-bit value nearest to
  \<open>n\<close>, and of two nearest ones the one divisible by the higher power of two.
\<close>

lemma bit_length_gt: "2 ^ k \<le> n \<Longrightarrow> k < bit_length n"
proof (induction k arbitrary: n)
  case 0
  then show ?case by (subst bit_length.simps) auto
next
  case (Suc k)
  then have "2 ^ k \<le> n div 2" by simp
  then have "k < bit_length (n div 2)" by (rule Suc.IH)
  moreover have "0 < (2::nat) ^ Suc k" by simp
  then have "n \<noteq> 0" using Suc.prems by linarith
  ultimately show ?case by (subst bit_length.simps) simp
qed

lemma less_power_bit_length: "n < 2 ^ bit_length n"
  using bit_length_gt [of "bit_length n" n] by (cases "n < 2 ^ bit_length n") auto

lemma power_bit_length_le: "0 < n \<Longrightarrow> 2 ^ (bit_length n - 1) \<le> n"
proof (rule ccontr)
  assume n: "0 < n" and "\<not> 2 ^ (bit_length n - 1) \<le> n"
  then have "bit_length n \<le> bit_length n - 1" by (intro bit_length_le) simp
  moreover have "0 < bit_length n" using n bit_length_gt [of 0 n] by simp
  ultimately show False by simp
qed

lemma significant53I:
  assumes "m = q * 2 ^ e" and "q < 2 ^ 53"
  shows "significant53 m"
proof -
  have "m < 2 ^ 53 * 2 ^ e" using assms by simp
  then have "m < 2 ^ (53 + e)" by (simp add: power_add)
  then have "bit_length m \<le> 53 + e" by (rule bit_length_le)
  then have "bit_length m - 53 \<le> e" by simp
  then have "(2::nat) ^ (bit_length m - 53) dvd 2 ^ e" by (rule le_imp_power_dvd)
  then show ?thesis using assms(1) by (simp add: significant53_def)
qed

lemma no_double_between:
  assumes q: "2 ^ 52 \<le> q" "q < 2 ^ 53" and d: "significant53 d"
  shows "d \<le> q * 2 ^ e \<or> (q + 1) * 2 ^ e \<le> d"
proof (rule ccontr)
  assume "\<not> (d \<le> q * 2 ^ e \<or> (q + 1) * 2 ^ e \<le> d)"
  then have lo: "q * 2 ^ e < d" and hi: "d < (q + 1) * 2 ^ e" by auto
  have "(q + 1) * 2 ^ e \<le> 2 ^ 53 * 2 ^ e" using q(2) by (intro mult_right_mono) auto
  then have "d < 2 ^ 53 * 2 ^ e" using hi by (rule less_le_trans [rotated])
  then have "d < 2 ^ (53 + e)" by (simp only: power_add)
  then have up: "bit_length d \<le> 53 + e" by (rule bit_length_le)
  have "(2::nat) ^ 52 * 2 ^ e \<le> q * 2 ^ e" using q(1) by (intro mult_right_mono) auto
  then have "(2::nat) ^ 52 * 2 ^ e \<le> d" using lo by linarith
  then have "(2::nat) ^ (52 + e) \<le> d" by (simp only: power_add)
  then have "52 + e < bit_length d" by (rule bit_length_gt)
  then have "bit_length d - 53 = e" using up by simp
  then have "2 ^ e dvd d" using d by (simp add: significant53_def)
  then obtain c where c: "d = c * 2 ^ e" by (auto simp: dvd_def mult.commute)
  have "q < c" using lo c by simp
  moreover have "c * 2 ^ e < (q + 1) * 2 ^ e" using hi c by simp
  then have "c < q + 1" by (rule mult_right_less_imp_less) simp
  ultimately show False by simp
qed

lemma nearest_of_two:
  fixes n lo r P d m :: nat
  assumes "n = lo + r" and "r < P" and "d \<le> lo \<or> lo + P \<le> d"
    and "m = (if 2 * r < P \<or> (2 * r = P \<and> c) then lo else lo + P)" and "d \<noteq> m"
  shows "\<bar>int n - int m\<bar> < \<bar>int n - int d\<bar> \<or>
         (\<bar>int n - int m\<bar> = \<bar>int n - int d\<bar> \<and> 2 * r = P \<and>
          (if c then m = lo \<and> d = lo + P else m = lo + P \<and> d = lo))"
  using assms by (auto split: if_splits)

lemma dvd_twice_power: "(2::nat) ^ Suc e dvd k * 2 ^ e \<longleftrightarrow> even k"
proof -
  have "(2::nat) ^ Suc e dvd k * 2 ^ e \<longleftrightarrow> 2 * 2 ^ e dvd k * 2 ^ e" by simp
  also have "\<dots> \<longleftrightarrow> 2 dvd k" by (rule dvd_times_right_cancel_iff) simp
  finally show ?thesis .
qed

lemma Number_value_nearest:
  "\<exists>m. Number_value n = (if 2 ^ 1024 \<le> m then \<infinity> else enat m) \<and> significant53 m \<and>
       (\<forall>d. significant53 d \<and> d \<noteq> m \<longrightarrow>
          \<bar>int n - int m\<bar> < \<bar>int n - int d\<bar> \<or>
          (\<bar>int n - int m\<bar> = \<bar>int n - int d\<bar> \<and> (\<exists>j. 2 ^ j dvd m \<and> \<not> 2 ^ j dvd d)))"
proof (cases "n < 2 ^ 53")
  case True
  have "(2::nat) ^ 53 \<le> 2 ^ 1024" by (rule power_increasing) simp_all
  then have "\<not> 2 ^ 1024 \<le> n" using True by simp
  moreover have "significant53 n" using True significant53I [of n n 0] by simp
  ultimately show ?thesis
    using Number_value_small [OF True] by (intro exI [of _ n]) auto
next
  case False
  define e where "e = bit_length n - 53"
  define q where "q = n div 2 ^ e"
  define r where "r = n mod 2 ^ e"
  define m where "m = (if 2 * r < 2 ^ e \<or> (2 * r = 2 ^ e \<and> even q) then q else q + 1) * 2 ^ e"
  have big: "(2::nat) ^ 53 \<le> n" using False by simp
  then have len: "53 < bit_length n" by (rule bit_length_gt)
  then have L: "bit_length n = 53 + e" "bit_length n - 1 = 52 + e" by (simp_all add: e_def)
  have n: "n = q * 2 ^ e + r" using div_mult_mod_eq [of n "2 ^ e"] by (simp add: q_def r_def)
  have r: "r < 2 ^ e" by (simp add: r_def)
  have "n < 2 ^ 53 * 2 ^ e" using less_power_bit_length [of n] L by (simp add: power_add)
  then have q_hi: "q < 2 ^ 53" by (simp add: q_def less_mult_imp_div_less)
  have "0 < n" using big by (cases n) auto
  then have "(2::nat) ^ 52 * 2 ^ e \<le> n" using power_bit_length_le [of n] L by (simp add: power_add)
  then have q_lo: "2 ^ 52 \<le> q" by (simp add: q_def less_eq_div_iff_mult_less_eq)
  have val: "Number_value n = (if 2 ^ 1024 \<le> m then \<infinity> else enat m)"
    by (simp add: Number_value_def Let_def e_def [symmetric] q_def [symmetric]
        r_def [symmetric] m_def)
  have sig: "significant53 m"
  proof (cases "m = q * 2 ^ e")
    case True
    then show ?thesis using q_hi by (rule significant53I)
  next
    case False
    then have m1: "m = (q + 1) * 2 ^ e" by (auto simp: m_def split: if_splits)
    show ?thesis
    proof (cases "q + 1 < 2 ^ 53")
      case True
      with m1 show ?thesis by (rule significant53I)
    next
      case False
      then have "q + 1 = 2 ^ 53" using q_hi by simp
      then have "m = 2 ^ 52 * 2 ^ Suc e" using m1 by simp
      then show ?thesis by (rule significant53I) simp
    qed
  qed
  have near: "\<forall>d. significant53 d \<and> d \<noteq> m \<longrightarrow>
          \<bar>int n - int m\<bar> < \<bar>int n - int d\<bar> \<or>
          (\<bar>int n - int m\<bar> = \<bar>int n - int d\<bar> \<and> (\<exists>j. 2 ^ j dvd m \<and> \<not> 2 ^ j dvd d))"
  proof (intro allI impI)
    fix d assume d: "significant53 d \<and> d \<noteq> m"
    have gap: "d \<le> q * 2 ^ e \<or> q * 2 ^ e + 2 ^ e \<le> d"
      using no_double_between [OF q_lo q_hi, of d e] d by (auto simp: algebra_simps)
    have m': "m = (if 2 * r < 2 ^ e \<or> (2 * r = 2 ^ e \<and> even q) then q * 2 ^ e
                   else q * 2 ^ e + 2 ^ e)"
      by (simp add: m_def)
    have two: "\<bar>int n - int m\<bar> < \<bar>int n - int d\<bar> \<or>
         (\<bar>int n - int m\<bar> = \<bar>int n - int d\<bar> \<and> 2 * r = 2 ^ e \<and>
          (if even q then m = q * 2 ^ e \<and> d = q * 2 ^ e + 2 ^ e
           else m = q * 2 ^ e + 2 ^ e \<and> d = q * 2 ^ e))"
      using n r gap m' d by (intro nearest_of_two) simp_all
    show "\<bar>int n - int m\<bar> < \<bar>int n - int d\<bar> \<or>
          (\<bar>int n - int m\<bar> = \<bar>int n - int d\<bar> \<and> (\<exists>j. 2 ^ j dvd m \<and> \<not> 2 ^ j dvd d))"
    proof (cases "\<bar>int n - int m\<bar> < \<bar>int n - int d\<bar>")
      case True
      then show ?thesis by simp
    next
      case False
      then have tie: "\<bar>int n - int m\<bar> = \<bar>int n - int d\<bar>"
        and which: "if even q then m = q * 2 ^ e \<and> d = q * 2 ^ e + 2 ^ e
                    else m = q * 2 ^ e + 2 ^ e \<and> d = q * 2 ^ e"
        using two by auto
      have "2 ^ Suc e dvd m \<and> \<not> 2 ^ Suc e dvd d"
      proof (cases "even q")
        case True
        then have "m = q * 2 ^ e" "d = (q + 1) * 2 ^ e" using which by simp_all
        then show ?thesis using True dvd_twice_power [of e q] dvd_twice_power [of e "q + 1"]
          by simp
      next
        case False
        then have "m = (q + 1) * 2 ^ e" "d = q * 2 ^ e" using which by simp_all
        then show ?thesis using False dvd_twice_power [of e q] dvd_twice_power [of e "q + 1"]
          by simp
      qed
      then show ?thesis using tie by blast
    qed
  qed
  show ?thesis using val sig near by (intro exI [of _ m]) simp
qed

section \<open>The binary searches on a sorted index\<close>

text \<open>
  The lemmas of this section are stated for a column whose values all have one variant:
  \<open>inj\<close> is the constructor of that variant (\<open>Num\<close> or \<open>Str\<close>) and \<open>k\<close> reads the key of a
  row, so that \<open>js_lt\<close> on the column is the order of the keys.
\<close>

declare findFirstEqual_loop.simps [simp del]
declare findLastEqual_loop.simps [simp del]
declare findFirstGreaterThan_loop.simps [simp del]

lemma sorted_int_nth:
  assumes "sorted (map k xs)" and "0 \<le> i" and "i \<le> j" and "j < int (length xs)"
  shows "k (xs ! nat i) \<le> k (xs ! nat j)"
proof -
  have "nat i \<le> nat j" "nat j < length (map k xs)" using assms by auto
  then have "map k xs ! nat i \<le> map k xs ! nat j"
    using assms(1) by (simp add: sorted_iff_nth_mono)
  then show ?thesis using assms by simp
qed

lemma Array_get_in_range:
  "0 \<le> i \<Longrightarrow> i < int (length xs) \<Longrightarrow> Array_get xs i = Some (xs ! nat i)"
  by (simp add: Array_get_def)

lemma findFirstEqual_loop_keyed:
  fixes inj :: "'k::linorder \<Rightarrow> Value" and k :: "Row \<Rightarrow> 'k"
  assumes lt: "\<And>a b. js_lt (Own (inj a)) (Own (inj b)) = Some (a < b)"
    and keys: "\<forall>r\<in>set (ColumnIndex.rows this). get r (ColumnIndex.column this) = Own (inj (k r))"
    and srt: "sorted (map k (ColumnIndex.rows this))"
  shows "0 \<le> left \<Longrightarrow> right < int (length (ColumnIndex.rows this)) \<Longrightarrow> left \<le> right + 1 \<Longrightarrow>
    (\<forall>i. 0 \<le> i \<and> i < left \<longrightarrow> k (ColumnIndex.rows this ! nat i) < kv) \<Longrightarrow>
    (result = - 1 \<and> (\<forall>i. right < i \<and> i < int (length (ColumnIndex.rows this))
                         \<longrightarrow> kv < k (ColumnIndex.rows this ! nat i))) \<or>
    (result = right + 1 \<and> result < int (length (ColumnIndex.rows this)) \<and>
       k (ColumnIndex.rows this ! nat result) = kv) \<Longrightarrow>
    \<exists>res. findFirstEqual_loop this (inj kv) left right result = Inr res \<and>
      ((res = - 1 \<and> (\<forall>i. 0 \<le> i \<and> i < int (length (ColumnIndex.rows this))
                        \<longrightarrow> k (ColumnIndex.rows this ! nat i) \<noteq> kv)) \<or>
       (0 \<le> res \<and> res < int (length (ColumnIndex.rows this)) \<and>
          k (ColumnIndex.rows this ! nat res) = kv \<and>
          (\<forall>i. 0 \<le> i \<and> i < res \<longrightarrow> k (ColumnIndex.rows this ! nat i) < kv)))"
proof (induction "nat (right + 1 - left)" arbitrary: left right result rule: less_induct)
  case less
  let ?xs = "ColumnIndex.rows this"
  let ?n = "int (length ?xs)"
  let ?key = "\<lambda>i. k (?xs ! nat i)"
  show ?case
  proof (cases "left \<le> right")
    case False
    then have eq: "left = right + 1" using less.prems by simp
    have run: "findFirstEqual_loop this (inj kv) left right result = Inr result"
      using False by (subst findFirstEqual_loop.simps) simp
    from less.prems(5) show ?thesis
    proof
      assume a: "result = - 1 \<and> (\<forall>i. right < i \<and> i < ?n \<longrightarrow> kv < ?key i)"
      have "\<forall>i. 0 \<le> i \<and> i < ?n \<longrightarrow> ?key i \<noteq> kv"
      proof (intro allI impI)
        fix i assume i: "0 \<le> i \<and> i < ?n"
        show "?key i \<noteq> kv"
        proof (cases "i < left")
          case True
          then show ?thesis using less.prems(4) i by auto
        next
          case False
          then have "right < i" using eq by simp
          then show ?thesis using a i by auto
        qed
      qed
      then show ?thesis using run a by simp
    next
      assume a: "result = right + 1 \<and> result < ?n \<and> ?key result = kv"
      then show ?thesis using run eq less.prems(1,4) by auto
    qed
  next
    case True
    define mid where "mid = (left + right) div 2"
    have mid: "left \<le> mid" "mid \<le> right" using True by (auto simp: mid_def)
    have mid_range: "0 \<le> mid" "mid < ?n" using mid less.prems by auto
    have row: "Array_get ?xs mid = Some (?xs ! nat mid)"
      using mid_range by (rule Array_get_in_range)
    have mem: "?xs ! nat mid \<in> set ?xs" using mid_range by simp
    have val: "get (?xs ! nat mid) (ColumnIndex.column this) = Own (inj (?key mid))"
      using keys mem by simp
    have cmp1: "js_lt (get (?xs ! nat mid) (ColumnIndex.column this)) (Own (inj kv)) = Some (?key mid < kv)"
      by (simp add: val lt)
    have cmp2: "js_gt (get (?xs ! nat mid) (ColumnIndex.column this)) (Own (inj kv)) = Some (kv < ?key mid)"
      by (simp add: val lt js_gt_def)
    consider (lt) "?key mid < kv" | (gt) "kv < ?key mid" | (eq) "?key mid = kv"
      by (cases "?key mid" kv rule: linorder_cases) auto
    then show ?thesis
    proof cases
      case lt
      have step: "findFirstEqual_loop this (inj kv) left right result =
                  findFirstEqual_loop this (inj kv) (mid + 1) right result"
        using True lt by (subst findFirstEqual_loop.simps) (simp add: row cmp1 mid_def [symmetric])
      have low: "\<forall>i. 0 \<le> i \<and> i < mid + 1 \<longrightarrow> ?key i < kv"
      proof (intro allI impI)
        fix i assume i: "0 \<le> i \<and> i < mid + 1"
        have "?key i \<le> ?key mid" using srt i mid_range by (intro sorted_int_nth) auto
        then show "?key i < kv" using lt by simp
      qed
      have "\<exists>res. findFirstEqual_loop this (inj kv) (mid + 1) right result = Inr res \<and>
        ((res = - 1 \<and> (\<forall>i. 0 \<le> i \<and> i < ?n \<longrightarrow> ?key i \<noteq> kv)) \<or>
         (0 \<le> res \<and> res < ?n \<and> ?key res = kv \<and> (\<forall>i. 0 \<le> i \<and> i < res \<longrightarrow> ?key i < kv)))"
        using mid mid_range less.prems(2,5) low
        by (intro less.hyps) auto
      then show ?thesis by (simp add: step)
    next
      case gt
      have step: "findFirstEqual_loop this (inj kv) left right result =
                  findFirstEqual_loop this (inj kv) left (mid - 1) result"
        using True gt not_less_iff_gr_or_eq [of "?key mid" kv]
        by (subst findFirstEqual_loop.simps) (simp add: row cmp1 cmp2 mid_def [symmetric])
      have high: "\<forall>i. mid - 1 < i \<and> i < ?n \<longrightarrow> kv < ?key i"
      proof (intro allI impI)
        fix i assume i: "mid - 1 < i \<and> i < ?n"
        have "?key mid \<le> ?key i" using srt i mid_range by (intro sorted_int_nth) auto
        then show "kv < ?key i" using gt by simp
      qed
      have no_res: "result = - 1"
      proof (rule ccontr)
        assume "result \<noteq> - 1"
        then have r: "result = right + 1" "result < ?n" "?key result = kv"
          using less.prems(5) by auto
        have "?key mid \<le> ?key result" using srt mid mid_range r by (intro sorted_int_nth) auto
        then show False using gt r by simp
      qed
      have "\<exists>res. findFirstEqual_loop this (inj kv) left (mid - 1) result = Inr res \<and>
        ((res = - 1 \<and> (\<forall>i. 0 \<le> i \<and> i < ?n \<longrightarrow> ?key i \<noteq> kv)) \<or>
         (0 \<le> res \<and> res < ?n \<and> ?key res = kv \<and> (\<forall>i. 0 \<le> i \<and> i < res \<longrightarrow> ?key i < kv)))"
        using mid mid_range less.prems(1,4) high no_res
        by (intro less.hyps) auto
      then show ?thesis by (simp add: step)
    next
      case eq
      have step: "findFirstEqual_loop this (inj kv) left right result =
                  findFirstEqual_loop this (inj kv) left (mid - 1) mid"
        using True eq
        by (subst findFirstEqual_loop.simps) (simp add: row cmp1 cmp2 mid_def [symmetric])
      have "\<exists>res. findFirstEqual_loop this (inj kv) left (mid - 1) mid = Inr res \<and>
        ((res = - 1 \<and> (\<forall>i. 0 \<le> i \<and> i < ?n \<longrightarrow> ?key i \<noteq> kv)) \<or>
         (0 \<le> res \<and> res < ?n \<and> ?key res = kv \<and> (\<forall>i. 0 \<le> i \<and> i < res \<longrightarrow> ?key i < kv)))"
        using mid mid_range less.prems(1,4) eq
        by (intro less.hyps) auto
      then show ?thesis by (simp add: step)
    qed
  qed
qed

lemma findLastEqual_loop_keyed:
  fixes inj :: "'k::linorder \<Rightarrow> Value" and k :: "Row \<Rightarrow> 'k"
  assumes lt: "\<And>a b. js_lt (Own (inj a)) (Own (inj b)) = Some (a < b)"
    and keys: "\<forall>r\<in>set (ColumnIndex.rows this). get r (ColumnIndex.column this) = Own (inj (k r))"
    and srt: "sorted (map k (ColumnIndex.rows this))"
  shows "0 \<le> left \<Longrightarrow> right < int (length (ColumnIndex.rows this)) \<Longrightarrow> left \<le> right + 1 \<Longrightarrow>
    (\<forall>i. right < i \<and> i < int (length (ColumnIndex.rows this))
          \<longrightarrow> kv < k (ColumnIndex.rows this ! nat i)) \<Longrightarrow>
    (result = - 1 \<and> (\<forall>i. 0 \<le> i \<and> i < left \<longrightarrow> k (ColumnIndex.rows this ! nat i) < kv)) \<or>
    (result = left - 1 \<and> 0 \<le> result \<and> k (ColumnIndex.rows this ! nat result) = kv) \<Longrightarrow>
    \<exists>res. findLastEqual_loop this (inj kv) left right result = Inr res \<and>
      ((res = - 1 \<and> (\<forall>i. 0 \<le> i \<and> i < int (length (ColumnIndex.rows this))
                        \<longrightarrow> k (ColumnIndex.rows this ! nat i) \<noteq> kv)) \<or>
       (0 \<le> res \<and> res < int (length (ColumnIndex.rows this)) \<and>
          k (ColumnIndex.rows this ! nat res) = kv \<and>
          (\<forall>i. res < i \<and> i < int (length (ColumnIndex.rows this))
                \<longrightarrow> kv < k (ColumnIndex.rows this ! nat i))))"
proof (induction "nat (right + 1 - left)" arbitrary: left right result rule: less_induct)
  case less
  let ?xs = "ColumnIndex.rows this"
  let ?n = "int (length ?xs)"
  let ?key = "\<lambda>i. k (?xs ! nat i)"
  show ?case
  proof (cases "left \<le> right")
    case False
    then have eq: "left = right + 1" using less.prems by simp
    have run: "findLastEqual_loop this (inj kv) left right result = Inr result"
      using False by (subst findLastEqual_loop.simps) simp
    from less.prems(5) show ?thesis
    proof
      assume a: "result = - 1 \<and> (\<forall>i. 0 \<le> i \<and> i < left \<longrightarrow> ?key i < kv)"
      have "\<forall>i. 0 \<le> i \<and> i < ?n \<longrightarrow> ?key i \<noteq> kv"
      proof (intro allI impI)
        fix i assume i: "0 \<le> i \<and> i < ?n"
        show "?key i \<noteq> kv"
        proof (cases "i < left")
          case True
          then show ?thesis using a i by auto
        next
          case False
          then have "right < i" using eq by simp
          then show ?thesis using less.prems(4) i by auto
        qed
      qed
      then show ?thesis using run a by simp
    next
      assume a: "result = left - 1 \<and> 0 \<le> result \<and> ?key result = kv"
      then show ?thesis using run eq less.prems(2,4) by auto
    qed
  next
    case True
    define mid where "mid = (left + right) div 2"
    have mid: "left \<le> mid" "mid \<le> right" using True by (auto simp: mid_def)
    have mid_range: "0 \<le> mid" "mid < ?n" using mid less.prems by auto
    have row: "Array_get ?xs mid = Some (?xs ! nat mid)"
      using mid_range by (rule Array_get_in_range)
    have mem: "?xs ! nat mid \<in> set ?xs" using mid_range by simp
    have val: "get (?xs ! nat mid) (ColumnIndex.column this) = Own (inj (?key mid))"
      using keys mem by simp
    have cmp1: "js_lt (get (?xs ! nat mid) (ColumnIndex.column this)) (Own (inj kv)) = Some (?key mid < kv)"
      by (simp add: val lt)
    have cmp2: "js_gt (get (?xs ! nat mid) (ColumnIndex.column this)) (Own (inj kv)) = Some (kv < ?key mid)"
      by (simp add: val lt js_gt_def)
    consider (lt) "?key mid < kv" | (gt) "kv < ?key mid" | (eq) "?key mid = kv"
      by (cases "?key mid" kv rule: linorder_cases) auto
    then show ?thesis
    proof cases
      case lt
      have step: "findLastEqual_loop this (inj kv) left right result =
                  findLastEqual_loop this (inj kv) (mid + 1) right result"
        using True lt by (subst findLastEqual_loop.simps) (simp add: row cmp1 mid_def [symmetric])
      have low: "\<forall>i. 0 \<le> i \<and> i < mid + 1 \<longrightarrow> ?key i < kv"
      proof (intro allI impI)
        fix i assume i: "0 \<le> i \<and> i < mid + 1"
        have "?key i \<le> ?key mid" using srt i mid_range by (intro sorted_int_nth) auto
        then show "?key i < kv" using lt by simp
      qed
      have no_res: "result = - 1"
      proof (rule ccontr)
        assume "result \<noteq> - 1"
        then have r: "result = left - 1" "0 \<le> result" "?key result = kv"
          using less.prems(5) by auto
        have "?key result \<le> ?key mid" using srt mid mid_range r by (intro sorted_int_nth) auto
        then show False using lt r by simp
      qed
      have "\<exists>res. findLastEqual_loop this (inj kv) (mid + 1) right result = Inr res \<and>
        ((res = - 1 \<and> (\<forall>i. 0 \<le> i \<and> i < ?n \<longrightarrow> ?key i \<noteq> kv)) \<or>
         (0 \<le> res \<and> res < ?n \<and> ?key res = kv \<and> (\<forall>i. res < i \<and> i < ?n \<longrightarrow> kv < ?key i)))"
        using mid mid_range less.prems(2,4) low no_res
        by (intro less.hyps) auto
      then show ?thesis by (simp add: step)
    next
      case gt
      have step: "findLastEqual_loop this (inj kv) left right result =
                  findLastEqual_loop this (inj kv) left (mid - 1) result"
        using True gt not_less_iff_gr_or_eq [of "?key mid" kv]
        by (subst findLastEqual_loop.simps) (simp add: row cmp1 cmp2 mid_def [symmetric])
      have high: "\<forall>i. mid - 1 < i \<and> i < ?n \<longrightarrow> kv < ?key i"
      proof (intro allI impI)
        fix i assume i: "mid - 1 < i \<and> i < ?n"
        have "?key mid \<le> ?key i" using srt i mid_range by (intro sorted_int_nth) auto
        then show "kv < ?key i" using gt by simp
      qed
      have "\<exists>res. findLastEqual_loop this (inj kv) left (mid - 1) result = Inr res \<and>
        ((res = - 1 \<and> (\<forall>i. 0 \<le> i \<and> i < ?n \<longrightarrow> ?key i \<noteq> kv)) \<or>
         (0 \<le> res \<and> res < ?n \<and> ?key res = kv \<and> (\<forall>i. res < i \<and> i < ?n \<longrightarrow> kv < ?key i)))"
        using mid mid_range less.prems(1,5) high
        by (intro less.hyps) auto
      then show ?thesis by (simp add: step)
    next
      case eq
      have step: "findLastEqual_loop this (inj kv) left right result =
                  findLastEqual_loop this (inj kv) (mid + 1) right mid"
        using True eq
        by (subst findLastEqual_loop.simps) (simp add: row cmp1 cmp2 mid_def [symmetric])
      have "\<exists>res. findLastEqual_loop this (inj kv) (mid + 1) right mid = Inr res \<and>
        ((res = - 1 \<and> (\<forall>i. 0 \<le> i \<and> i < ?n \<longrightarrow> ?key i \<noteq> kv)) \<or>
         (0 \<le> res \<and> res < ?n \<and> ?key res = kv \<and> (\<forall>i. res < i \<and> i < ?n \<longrightarrow> kv < ?key i)))"
        using mid mid_range less.prems(2,4) eq
        by (intro less.hyps) auto
      then show ?thesis by (simp add: step)
    qed
  qed
qed

lemma findFirstGreaterThan_loop_keyed:
  fixes inj :: "'k::linorder \<Rightarrow> Value" and k :: "Row \<Rightarrow> 'k"
  assumes lt: "\<And>a b. js_lt (Own (inj a)) (Own (inj b)) = Some (a < b)"
    and keys: "\<forall>r\<in>set (ColumnIndex.rows this). get r (ColumnIndex.column this) = Own (inj (k r))"
    and srt: "sorted (map k (ColumnIndex.rows this))"
  shows "0 \<le> left \<Longrightarrow> right < int (length (ColumnIndex.rows this)) \<Longrightarrow> left \<le> right + 1 \<Longrightarrow>
    (\<forall>i. 0 \<le> i \<and> i < left \<longrightarrow> k (ColumnIndex.rows this ! nat i) \<le> kv) \<Longrightarrow>
    (result = - 1 \<and> right = int (length (ColumnIndex.rows this)) - 1) \<or>
    (result = right + 1 \<and> result < int (length (ColumnIndex.rows this)) \<and>
       kv < k (ColumnIndex.rows this ! nat result)) \<Longrightarrow>
    \<exists>res. findFirstGreaterThan_loop this (inj kv) left right result = Inr res \<and>
      ((res = - 1 \<and> (\<forall>i. 0 \<le> i \<and> i < int (length (ColumnIndex.rows this))
                        \<longrightarrow> k (ColumnIndex.rows this ! nat i) \<le> kv)) \<or>
       (0 \<le> res \<and> res < int (length (ColumnIndex.rows this)) \<and>
          kv < k (ColumnIndex.rows this ! nat res) \<and>
          (\<forall>i. 0 \<le> i \<and> i < res \<longrightarrow> k (ColumnIndex.rows this ! nat i) \<le> kv)))"
proof (induction "nat (right + 1 - left)" arbitrary: left right result rule: less_induct)
  case less
  let ?xs = "ColumnIndex.rows this"
  let ?n = "int (length ?xs)"
  let ?key = "\<lambda>i. k (?xs ! nat i)"
  show ?case
  proof (cases "left \<le> right")
    case False
    then have eq: "left = right + 1" using less.prems by simp
    have run: "findFirstGreaterThan_loop this (inj kv) left right result = Inr result"
      using False by (subst findFirstGreaterThan_loop.simps) simp
    from less.prems(5) show ?thesis
    proof
      assume a: "result = - 1 \<and> right = ?n - 1"
      then have "\<forall>i. 0 \<le> i \<and> i < ?n \<longrightarrow> ?key i \<le> kv"
        using less.prems(4) eq by auto
      then show ?thesis using run a by simp
    next
      assume a: "result = right + 1 \<and> result < ?n \<and> kv < ?key result"
      then show ?thesis using run eq less.prems(1,4) by auto
    qed
  next
    case True
    define mid where "mid = (left + right) div 2"
    have mid: "left \<le> mid" "mid \<le> right" using True by (auto simp: mid_def)
    have mid_range: "0 \<le> mid" "mid < ?n" using mid less.prems by auto
    have row: "Array_get ?xs mid = Some (?xs ! nat mid)"
      using mid_range by (rule Array_get_in_range)
    have mem: "?xs ! nat mid \<in> set ?xs" using mid_range by simp
    have val: "get (?xs ! nat mid) (ColumnIndex.column this) = Own (inj (?key mid))"
      using keys mem by simp
    have cmp2: "js_gt (get (?xs ! nat mid) (ColumnIndex.column this)) (Own (inj kv)) = Some (kv < ?key mid)"
      by (simp add: val lt js_gt_def)
    show ?thesis
    proof (cases "kv < ?key mid")
      case gt: True
      have step: "findFirstGreaterThan_loop this (inj kv) left right result =
                  findFirstGreaterThan_loop this (inj kv) left (mid - 1) mid"
        using True gt
        by (subst findFirstGreaterThan_loop.simps) (simp add: row cmp2 mid_def [symmetric])
      have "\<exists>res. findFirstGreaterThan_loop this (inj kv) left (mid - 1) mid = Inr res \<and>
        ((res = - 1 \<and> (\<forall>i. 0 \<le> i \<and> i < ?n \<longrightarrow> ?key i \<le> kv)) \<or>
         (0 \<le> res \<and> res < ?n \<and> kv < ?key res \<and> (\<forall>i. 0 \<le> i \<and> i < res \<longrightarrow> ?key i \<le> kv)))"
        using mid mid_range less.prems(1,4) gt
        by (intro less.hyps) auto
      then show ?thesis by (simp add: step)
    next
      case le: False
      have step: "findFirstGreaterThan_loop this (inj kv) left right result =
                  findFirstGreaterThan_loop this (inj kv) (mid + 1) right result"
        using True le
        by (subst findFirstGreaterThan_loop.simps) (simp add: row cmp2 mid_def [symmetric])
      have low: "\<forall>i. 0 \<le> i \<and> i < mid + 1 \<longrightarrow> ?key i \<le> kv"
      proof (intro allI impI)
        fix i assume i: "0 \<le> i \<and> i < mid + 1"
        have "?key i \<le> ?key mid" using srt i mid_range by (intro sorted_int_nth) auto
        then show "?key i \<le> kv" using le by simp
      qed
      have "\<exists>res. findFirstGreaterThan_loop this (inj kv) (mid + 1) right result = Inr res \<and>
        ((res = - 1 \<and> (\<forall>i. 0 \<le> i \<and> i < ?n \<longrightarrow> ?key i \<le> kv)) \<or>
         (0 \<le> res \<and> res < ?n \<and> kv < ?key res \<and> (\<forall>i. 0 \<le> i \<and> i < res \<longrightarrow> ?key i \<le> kv)))"
        using mid mid_range less.prems(2,5) low
        by (intro less.hyps) auto
      then show ?thesis by (simp add: step)
    qed
  qed
qed

lemma filter_segment:
  assumes ab: "a \<le> b" "b \<le> length xs"
    and before: "\<forall>i<a. \<not> P (xs ! i)"
    and inside: "\<forall>i. a \<le> i \<and> i < b \<longrightarrow> P (xs ! i)"
    and after: "\<forall>i. b \<le> i \<and> i < length xs \<longrightarrow> \<not> P (xs ! i)"
  shows "filter P xs = take (b - a) (drop a xs)"
proof -
  have split: "xs = take a xs @ take (b - a) (drop a xs) @ drop b xs"
  proof -
    have "drop a xs = take (b - a) (drop a xs) @ drop (b - a) (drop a xs)"
      by (rule append_take_drop_id [symmetric])
    moreover have "drop (b - a) (drop a xs) = drop b xs" using ab by simp
    ultimately show ?thesis by (metis append_take_drop_id)
  qed
  have f1: "filter P (take a xs) = []"
    using before ab by (auto simp: filter_empty_conv in_set_conv_nth)
  have f2: "filter P (take (b - a) (drop a xs)) = take (b - a) (drop a xs)"
    using inside ab by (auto simp: filter_id_conv in_set_conv_nth)
  have f3: "filter P (drop b xs) = []"
    using after ab by (auto simp: filter_empty_conv in_set_conv_nth)
  have "filter P xs = filter P (take a xs @ take (b - a) (drop a xs) @ drop b xs)"
    using split by simp
  then show ?thesis by (simp only: filter_append f1 f2 f3) simp
qed

lemma findFirstEqual_keyed:
  fixes inj :: "'k::linorder \<Rightarrow> Value" and k :: "Row \<Rightarrow> 'k"
  assumes lt: "\<And>a b. js_lt (Own (inj a)) (Own (inj b)) = Some (a < b)"
    and keys: "\<forall>r\<in>set (ColumnIndex.rows this). get r (ColumnIndex.column this) = Own (inj (k r))"
    and srt: "sorted (map k (ColumnIndex.rows this))"
  shows "\<exists>res. findFirstEqual this (inj kv) = Inr res \<and>
      ((res = - 1 \<and> (\<forall>i. 0 \<le> i \<and> i < int (length (ColumnIndex.rows this))
                        \<longrightarrow> k (ColumnIndex.rows this ! nat i) \<noteq> kv)) \<or>
       (0 \<le> res \<and> res < int (length (ColumnIndex.rows this)) \<and>
          k (ColumnIndex.rows this ! nat res) = kv \<and>
          (\<forall>i. 0 \<le> i \<and> i < res \<longrightarrow> k (ColumnIndex.rows this ! nat i) < kv)))"
  unfolding findFirstEqual_def
  by (rule findFirstEqual_loop_keyed [OF lt keys srt]) auto

lemma findLastEqual_keyed:
  fixes inj :: "'k::linorder \<Rightarrow> Value" and k :: "Row \<Rightarrow> 'k"
  assumes lt: "\<And>a b. js_lt (Own (inj a)) (Own (inj b)) = Some (a < b)"
    and keys: "\<forall>r\<in>set (ColumnIndex.rows this). get r (ColumnIndex.column this) = Own (inj (k r))"
    and srt: "sorted (map k (ColumnIndex.rows this))"
  shows "\<exists>res. findLastEqual this (inj kv) = Inr res \<and>
      ((res = - 1 \<and> (\<forall>i. 0 \<le> i \<and> i < int (length (ColumnIndex.rows this))
                        \<longrightarrow> k (ColumnIndex.rows this ! nat i) \<noteq> kv)) \<or>
       (0 \<le> res \<and> res < int (length (ColumnIndex.rows this)) \<and>
          k (ColumnIndex.rows this ! nat res) = kv \<and>
          (\<forall>i. res < i \<and> i < int (length (ColumnIndex.rows this))
                \<longrightarrow> kv < k (ColumnIndex.rows this ! nat i))))"
  unfolding findLastEqual_def
  by (rule findLastEqual_loop_keyed [OF lt keys srt]) auto

lemma findFirstGreaterThan_keyed:
  fixes inj :: "'k::linorder \<Rightarrow> Value" and k :: "Row \<Rightarrow> 'k"
  assumes lt: "\<And>a b. js_lt (Own (inj a)) (Own (inj b)) = Some (a < b)"
    and keys: "\<forall>r\<in>set (ColumnIndex.rows this). get r (ColumnIndex.column this) = Own (inj (k r))"
    and srt: "sorted (map k (ColumnIndex.rows this))"
  shows "\<exists>res. findFirstGreaterThan this (inj kv) = Inr res \<and>
      ((res = - 1 \<and> (\<forall>i. 0 \<le> i \<and> i < int (length (ColumnIndex.rows this))
                        \<longrightarrow> k (ColumnIndex.rows this ! nat i) \<le> kv)) \<or>
       (0 \<le> res \<and> res < int (length (ColumnIndex.rows this)) \<and>
          kv < k (ColumnIndex.rows this ! nat res) \<and>
          (\<forall>i. 0 \<le> i \<and> i < res \<longrightarrow> k (ColumnIndex.rows this ! nat i) \<le> kv)))"
  unfolding findFirstGreaterThan_def
  by (rule findFirstGreaterThan_loop_keyed [OF lt keys srt]) auto

lemma searchEqual_keyed:
  fixes inj :: "'k::linorder \<Rightarrow> Value" and k :: "Row \<Rightarrow> 'k"
  assumes lt: "\<And>a b. js_lt (Own (inj a)) (Own (inj b)) = Some (a < b)"
    and keys: "\<forall>r\<in>set (ColumnIndex.rows this). get r (ColumnIndex.column this) = Own (inj (k r))"
    and srt: "sorted (map k (ColumnIndex.rows this))"
  shows "searchEqual this (inj kv) = Inr (filter (\<lambda>r. k r = kv) (ColumnIndex.rows this))"
proof -
  let ?xs = "ColumnIndex.rows this"
  let ?n = "int (length ?xs)"
  let ?key = "\<lambda>i. k (?xs ! nat i)"
  obtain f where f: "findFirstEqual this (inj kv) = Inr f"
    and fpost: "(f = - 1 \<and> (\<forall>i. 0 \<le> i \<and> i < ?n \<longrightarrow> ?key i \<noteq> kv)) \<or>
       (0 \<le> f \<and> f < ?n \<and> ?key f = kv \<and> (\<forall>i. 0 \<le> i \<and> i < f \<longrightarrow> ?key i < kv))"
    using findFirstEqual_keyed [OF lt keys srt, of kv] by blast
  obtain l where l: "findLastEqual this (inj kv) = Inr l"
    and lpost: "(l = - 1 \<and> (\<forall>i. 0 \<le> i \<and> i < ?n \<longrightarrow> ?key i \<noteq> kv)) \<or>
       (0 \<le> l \<and> l < ?n \<and> ?key l = kv \<and> (\<forall>i. l < i \<and> i < ?n \<longrightarrow> kv < ?key i))"
    using findLastEqual_keyed [OF lt keys srt, of kv] by blast
  show ?thesis
  proof (cases "f = - 1")
    case True
    then have none: "\<forall>i. 0 \<le> i \<and> i < ?n \<longrightarrow> ?key i \<noteq> kv" using fpost by auto
    have "\<forall>r\<in>set ?xs. k r \<noteq> kv"
    proof
      fix r assume "r \<in> set ?xs"
      then obtain i where i: "i < length ?xs" "?xs ! i = r" by (auto simp: in_set_conv_nth)
      then have "?key (int i) \<noteq> kv" using none [rule_format, of "int i"] by simp
      then show "k r \<noteq> kv" using i by simp
    qed
    then have "filter (\<lambda>r. k r = kv) ?xs = []" by (simp add: filter_empty_conv)
    then show ?thesis using True f by (simp add: searchEqual_def)
  next
    case False
    then have fp: "0 \<le> f" "f < ?n" "?key f = kv" "\<forall>i. 0 \<le> i \<and> i < f \<longrightarrow> ?key i < kv"
      using fpost by auto
    then have lp: "0 \<le> l" "l < ?n" "?key l = kv" "\<forall>i. l < i \<and> i < ?n \<longrightarrow> kv < ?key i"
      using lpost by auto
    have fl: "f \<le> l"
    proof (rule ccontr)
      assume "\<not> f \<le> l"
      then have "?key l < kv" using fp(4) lp(1) by auto
      then show False using lp(3) by simp
    qed
    have slice: "Array_slice ?xs f (l + 1) = take (nat (l + 1) - nat f) (drop (nat f) ?xs)"
      using fp lp fl by (simp add: Array_slice_def Let_def min_def nat_diff_distrib)
    have "filter (\<lambda>r. k r = kv) ?xs = take (nat (l + 1) - nat f) (drop (nat f) ?xs)"
    proof (rule filter_segment)
      show "nat f \<le> nat (l + 1)" using fl fp by simp
      show "nat (l + 1) \<le> length ?xs" using lp by auto
      show "\<forall>i<nat f. \<not> k (?xs ! i) = kv"
      proof (intro allI impI)
        fix i assume "i < nat f"
        then have "?key (int i) < kv" using fp(4) [rule_format, of "int i"] by simp
        then show "\<not> k (?xs ! i) = kv" by simp
      qed
      show "\<forall>i. nat f \<le> i \<and> i < nat (l + 1) \<longrightarrow> k (?xs ! i) = kv"
      proof (intro allI impI)
        fix i assume i: "nat f \<le> i \<and> i < nat (l + 1)"
        have "?key f \<le> ?key (int i)" using srt i fp lp by (intro sorted_int_nth) auto
        moreover have "?key (int i) \<le> ?key l" using srt i fp lp by (intro sorted_int_nth) auto
        ultimately show "k (?xs ! i) = kv" using fp(3) lp(3) by simp
      qed
      show "\<forall>i. nat (l + 1) \<le> i \<and> i < length ?xs \<longrightarrow> \<not> k (?xs ! i) = kv"
      proof (intro allI impI)
        fix i assume "nat (l + 1) \<le> i \<and> i < length ?xs"
        then have "kv < ?key (int i)" using lp(1) lp(4) [rule_format, of "int i"] by auto
        then show "\<not> k (?xs ! i) = kv" by simp
      qed
    qed
    then show ?thesis using False f l slice by (simp add: searchEqual_def)
  qed
qed

lemma searchGreaterThan_keyed:
  fixes inj :: "'k::linorder \<Rightarrow> Value" and k :: "Row \<Rightarrow> 'k"
  assumes lt: "\<And>a b. js_lt (Own (inj a)) (Own (inj b)) = Some (a < b)"
    and keys: "\<forall>r\<in>set (ColumnIndex.rows this). get r (ColumnIndex.column this) = Own (inj (k r))"
    and srt: "sorted (map k (ColumnIndex.rows this))"
  shows "\<exists>n\<le>length (ColumnIndex.rows this).
           searchGreaterThan this (inj kv) = Inr (drop n (ColumnIndex.rows this)) \<and>
           drop n (ColumnIndex.rows this) = filter (\<lambda>r. kv < k r) (ColumnIndex.rows this) \<and>
           (\<forall>r\<in>set (take n (ColumnIndex.rows this)). \<not> kv < k r)"
proof -
  let ?xs = "ColumnIndex.rows this"
  let ?n = "int (length ?xs)"
  let ?key = "\<lambda>i. k (?xs ! nat i)"
  obtain g where g: "findFirstGreaterThan this (inj kv) = Inr g"
    and gpost: "(g = - 1 \<and> (\<forall>i. 0 \<le> i \<and> i < ?n \<longrightarrow> ?key i \<le> kv)) \<or>
       (0 \<le> g \<and> g < ?n \<and> kv < ?key g \<and> (\<forall>i. 0 \<le> i \<and> i < g \<longrightarrow> ?key i \<le> kv))"
    using findFirstGreaterThan_keyed [OF lt keys srt, of kv] by blast
  show ?thesis
  proof (cases "g = - 1")
    case True
    then have none: "\<forall>i. 0 \<le> i \<and> i < ?n \<longrightarrow> ?key i \<le> kv" using gpost by auto
    have all: "\<forall>r\<in>set ?xs. \<not> kv < k r"
    proof
      fix r assume "r \<in> set ?xs"
      then obtain i where i: "i < length ?xs" "?xs ! i = r" by (auto simp: in_set_conv_nth)
      then have "?key (int i) \<le> kv" using none [rule_format, of "int i"] by simp
      then show "\<not> kv < k r" using i by simp
    qed
    then have "filter (\<lambda>r. kv < k r) ?xs = []" by (simp add: filter_empty_conv)
    then show ?thesis using True g all
      by (intro exI [of _ "length ?xs"]) (simp add: searchGreaterThan_def)
  next
    case False
    then have gp: "0 \<le> g" "g < ?n" "kv < ?key g" "\<forall>i. 0 \<le> i \<and> i < g \<longrightarrow> ?key i \<le> kv"
      using gpost by auto
    have slice: "Array_slice ?xs g ?n = drop (nat g) ?xs"
      using gp by (simp add: Array_slice_def Let_def min_def)
    have "filter (\<lambda>r. kv < k r) ?xs = take (length ?xs - nat g) (drop (nat g) ?xs)"
    proof (rule filter_segment)
      show "nat g \<le> length ?xs" using gp by simp
      show "length ?xs \<le> length ?xs" by simp
      show "\<forall>i<nat g. \<not> kv < k (?xs ! i)"
      proof (intro allI impI)
        fix i assume "i < nat g"
        then have "?key (int i) \<le> kv" using gp(4) [rule_format, of "int i"] by simp
        then show "\<not> kv < k (?xs ! i)" by simp
      qed
      show "\<forall>i. nat g \<le> i \<and> i < length ?xs \<longrightarrow> kv < k (?xs ! i)"
      proof (intro allI impI)
        fix i assume i: "nat g \<le> i \<and> i < length ?xs"
        have "?key g \<le> ?key (int i)" using srt i gp by (intro sorted_int_nth) auto
        then show "kv < k (?xs ! i)" using gp(3) by simp
      qed
      show "\<forall>i. length ?xs \<le> i \<and> i < length ?xs \<longrightarrow> \<not> kv < k (?xs ! i)" by auto
    qed
    then have filt: "drop (nat g) ?xs = filter (\<lambda>r. kv < k r) ?xs" by simp
    have low: "\<forall>r\<in>set (take (nat g) ?xs). \<not> kv < k r"
    proof
      fix r assume "r \<in> set (take (nat g) ?xs)"
      then obtain i where i: "i < nat g" "i < length ?xs" "?xs ! i = r"
        by (auto simp: in_set_conv_nth)
      then have "?key (int i) \<le> kv" using gp(4) [rule_format, of "int i"] by simp
      then show "\<not> kv < k r" using i by simp
    qed
    show ?thesis using False g slice filt low gp
      by (intro exI [of _ "nat g"]) (simp add: searchGreaterThan_def)
  qed
qed

lemma insert_sorted_keyed:
  fixes k :: "'a \<Rightarrow> 'k::linorder"
  assumes "\<forall>y\<in>set ys. cmp x y = Inr (if k x < k y then - 1 else if k y < k x then 1 else 0)"
  shows "insert_sorted cmp x ys = Inr (insort_key k x ys)"
  using assms by (induction ys) (auto simp: not_less)

lemma Array_sort_keyed:
  fixes k :: "'a \<Rightarrow> 'k::linorder"
  assumes "\<forall>x\<in>set xs. \<forall>y\<in>set xs.
             cmp x y = Inr (if k x < k y then - 1 else if k y < k x then 1 else 0)"
  shows "Array_sort cmp xs = Inr (sort_key k xs)"
  using assms
proof (induction xs)
  case Nil
  then show ?case by simp
next
  case (Cons x xs)
  then have "Array_sort cmp xs = Inr (sort_key k xs)" by simp
  moreover have "insert_sorted cmp x (sort_key k xs) = Inr (insort_key k x (sort_key k xs))"
    using Cons.prems by (intro insert_sorted_keyed) simp
  ultimately show ?case by simp
qed

lemma compareFn_keyed:
  fixes inj :: "'k::linorder \<Rightarrow> Value"
  assumes lt: "\<And>a b. js_lt (Own (inj a)) (Own (inj b)) = Some (a < b)"
    and "get a col = Own (inj (k a))" and "get b col = Own (inj (k b))"
  shows "compareFn col a b = Inr (if k a < k b then - 1 else if k b < k a then 1 else 0)"
  using assms by (simp add: compareFn_def js_gt_def)

lemma ColumnIndex_new_keyed:
  fixes inj :: "'k::linorder \<Rightarrow> Value"
  assumes lt: "\<And>a b. js_lt (Own (inj a)) (Own (inj b)) = Some (a < b)"
    and keys: "\<forall>r\<in>set rs. get r col = Own (inj (k r))"
  shows "ColumnIndex_new col rs = Inr \<lparr>ColumnIndex.column = col, ColumnIndex.rows = sort_key k rs\<rparr>"
proof -
  have "Array_sort (compareFn col) rs = Inr (sort_key k rs)"
    using keys by (intro Array_sort_keyed) (simp add: compareFn_keyed [OF lt])
  then show ?thesis by (simp add: ColumnIndex_new_def)
qed

section \<open>Objects, schema and indices\<close>

lemma get_Nil: "get [] key \<noteq> Own v"
  by (simp add: get_def)

lemma get_put:
  "get (put obj key v) key' =
     (if key' = key \<and> key \<noteq> js ''__proto__'' then Own v else get obj key')"
  by (simp add: get_def put_def update_conv')

lemma typeof_number: "typeof x = js ''number'' \<longleftrightarrow> (\<exists>n. x = Own (Num n))"
proof (cases x)
  case (Own v)
  then show ?thesis by (cases v) (simp_all add: js_def)
qed (simp_all add: js_def)

lemma typeof_string: "typeof x = js ''string'' \<longleftrightarrow> (\<exists>s. x = Own (Str s))"
proof (cases x)
  case (Own v)
  then show ?thesis by (cases v) (simp_all add: js_def)
qed (simp_all add: js_def)

lemma js_lt_Num: "js_lt (Own (Num a)) (Own (Num b)) = Some (a < b)"
  by simp

lemma js_lt_Str: "js_lt (Own (Str a)) (Own (Str b)) = Some (a < b)"
  by simp

lemma number_keys:
  "list_all (\<lambda>row. typeof (get row col) = js ''number'') rs \<Longrightarrow>
   \<forall>r\<in>set rs. get r col = Own (Num (number_key col r))"
  by (auto simp: list_all_iff typeof_number number_key_def)

lemma string_keys:
  "list_all (\<lambda>row. typeof (get row col) = js ''string'') rs \<Longrightarrow>
   \<forall>r\<in>set rs. get r col = Own (Str (string_key col r))"
  by (auto simp: list_all_iff typeof_string string_key_def)

lemma not_both_types:
  "rs \<noteq> [] \<Longrightarrow> list_all (\<lambda>row. typeof (get row col) = js ''number'') rs \<Longrightarrow>
   \<not> list_all (\<lambda>row. typeof (get row col) = js ''string'') rs"
  by (cases rs) (auto simp: js_def)

lemma buildColumnTypes_reduce_get:
  "buildColumnTypes_reduce cols rs acc = Inr types \<Longrightarrow>
   get types c =
     (if c \<in> set cols \<and> c \<noteq> js ''__proto__'' then
        Own (if list_all (\<lambda>row. typeof (get row c) = js ''number'') rs then NUMBER else STRING)
      else get acc c)"
proof (induction cols arbitrary: acc)
  case Nil
  then show ?case by simp
next
  case (Cons col cols)
  then show ?case
    by (auto simp: Let_def get_put split: if_splits)
qed

lemma buildColumnTypes_reduce_uniform:
  "buildColumnTypes_reduce cols rs acc = Inr types \<Longrightarrow> c \<in> set cols \<Longrightarrow>
   list_all (\<lambda>row. typeof (get row c) = js ''string'') rs \<or>
   list_all (\<lambda>row. typeof (get row c) = js ''number'') rs"
proof (induction cols arbitrary: acc)
  case Nil
  then show ?case by simp
next
  case (Cons col cols)
  then show ?case
    by (auto simp: Let_def split: if_splits)
qed

lemma buildColumnTypes_reduce_Inl:
  "buildColumnTypes_reduce cols rs acc = Inl e \<Longrightarrow> \<exists>m. e = DataError m"
proof (induction cols arbitrary: acc)
  case Nil
  then show ?case by simp
next
  case (Cons col cols)
  then show ?case
    by (auto simp: Let_def split: if_splits)
qed

lemma buildColumnTypes_reduce_mixed:
  "c \<in> set cols \<Longrightarrow>
   \<not> list_all (\<lambda>row. typeof (get row c) = js ''string'') rs \<Longrightarrow>
   \<not> list_all (\<lambda>row. typeof (get row c) = js ''number'') rs \<Longrightarrow>
   \<exists>m. buildColumnTypes_reduce cols rs acc = Inl (DataError m)"
proof (induction cols arbitrary: acc)
  case Nil
  then show ?case by simp
next
  case (Cons col cols)
  show ?case
  proof (cases "\<not> list_all (\<lambda>row. typeof (get row col) = js ''string'') rs \<and>
                \<not> list_all (\<lambda>row. typeof (get row col) = js ''number'') rs")
    case True
    then show ?thesis by (simp add: Let_def)
  next
    case False
    then have "c \<noteq> col" using Cons.prems by auto
    then have "c \<in> set cols" using Cons.prems by simp
    then have "\<exists>m. buildColumnTypes_reduce cols rs
        (put acc col (if list_all (\<lambda>row. typeof (get row col) = js ''number'') rs
                      then NUMBER else STRING)) = Inl (DataError m)"
      using Cons.prems by (intro Cons.IH) auto
    then show ?thesis using False by (auto simp: Let_def)
  qed
qed

lemma ColumnIndex_new_uniform:
  assumes "list_all (\<lambda>row. typeof (get row c) = js ''string'') rs \<or>
           list_all (\<lambda>row. typeof (get row c) = js ''number'') rs"
  shows "\<exists>index. ColumnIndex_new c rs = Inr index"
  using assms ColumnIndex_new_keyed [of Num rs c "number_key c", OF js_lt_Num number_keys]
    ColumnIndex_new_keyed [of Str rs c "string_key c", OF js_lt_Str string_keys]
  by auto

lemma buildColumnIndices_reduce_get:
  "\<forall>c\<in>set cols. \<exists>index. ColumnIndex_new c rs = Inr index \<Longrightarrow>
   \<exists>indices. buildColumnIndices_reduce cols rs acc = Inr indices \<and>
     (\<forall>c. get indices c =
        (if c \<in> set cols \<and> c \<noteq> js ''__proto__'' then Own (projr (ColumnIndex_new c rs))
         else get acc c))"
proof (induction cols arbitrary: acc)
  case Nil
  then show ?case by simp
next
  case (Cons col cols)
  obtain index where index: "ColumnIndex_new col rs = Inr index" using Cons.prems by auto
  have "\<exists>indices. buildColumnIndices_reduce cols rs (put acc col index) = Inr indices \<and>
     (\<forall>c. get indices c =
        (if c \<in> set cols \<and> c \<noteq> js ''__proto__'' then Own (projr (ColumnIndex_new c rs))
         else get (put acc col index) c))"
    using Cons.prems by (intro Cons.IH) simp
  then show ?case using index by (auto simp: get_put)
qed


lemma loadData_Inr_cases:
  assumes "loadData rs = Inr db"
  obtains types indices where "rs \<noteq> []"
    and "buildColumnTypes_reduce (Object_keys (rs ! 0)) rs [] = Inr types"
    and "buildColumnIndices_reduce (Object_keys (rs ! 0)) rs [] = Inr indices"
    and "db = \<lparr>columnTypes = types, columnIndices = indices, rows = rs\<rparr>"
  using assms
  by (auto simp: loadData_def buildColumnTypes_def buildColumnIndices_def
      split: if_splits sum.splits)

lemma loadData_rows: "loadData rs = Inr db \<Longrightarrow> rs \<noteq> [] \<and> Database.rows db = rs"
  by (erule loadData_Inr_cases) simp

lemma loadData_column:
  assumes "loadData rs = Inr db" and "get (columnTypes db) c = Own t"
  shows "c \<in> set (Object_keys (rs ! 0)) \<and> c \<noteq> js ''__proto__'' \<and>
         get (columnIndices db) c = Own (projr (ColumnIndex_new c rs)) \<and>
         (if t = NUMBER then list_all (\<lambda>row. typeof (get row c) = js ''number'') rs
          else list_all (\<lambda>row. typeof (get row c) = js ''string'') rs)"
proof -
  from assms(1) obtain types indices where ne: "rs \<noteq> []"
    and types: "buildColumnTypes_reduce (Object_keys (rs ! 0)) rs [] = Inr types"
    and indices: "buildColumnIndices_reduce (Object_keys (rs ! 0)) rs [] = Inr indices"
    and db: "db = \<lparr>columnTypes = types, columnIndices = indices, rows = rs\<rparr>"
    by (rule loadData_Inr_cases)
  let ?cols = "Object_keys (rs ! 0)"
  have own: "get types c = Own t" using assms(2) db by simp
  have c: "c \<in> set ?cols \<and> c \<noteq> js ''__proto__''"
    using own buildColumnTypes_reduce_get [OF types, of c] get_Nil [of c t]
    by (auto split: if_splits)
  have t: "t = (if list_all (\<lambda>row. typeof (get row c) = js ''number'') rs then NUMBER else STRING)"
    using own c buildColumnTypes_reduce_get [OF types, of c] by simp
  have uni: "list_all (\<lambda>row. typeof (get row c) = js ''string'') rs \<or>
             list_all (\<lambda>row. typeof (get row c) = js ''number'') rs"
    using buildColumnTypes_reduce_uniform [OF types] c by simp
  have "\<forall>c\<in>set ?cols. \<exists>index. ColumnIndex_new c rs = Inr index"
    using buildColumnTypes_reduce_uniform [OF types] ColumnIndex_new_uniform by blast
  then have "get indices c = Own (projr (ColumnIndex_new c rs))"
    using buildColumnIndices_reduce_get [of ?cols rs "[]"] indices c by auto
  then show ?thesis using c t uni db by (auto split: if_splits)
qed

lemma loadData_number_column:
  assumes "loadData rs = Inr db" and "get (columnTypes db) c = Own NUMBER"
  shows "(\<forall>r\<in>set rs. get r c = Own (Num (number_key c r))) \<and>
         get (columnIndices db) c =
           Own \<lparr>ColumnIndex.column = c, ColumnIndex.rows = sort_key (number_key c) rs\<rparr>"
proof -
  have all: "list_all (\<lambda>row. typeof (get row c) = js ''number'') rs"
    and idx: "get (columnIndices db) c = Own (projr (ColumnIndex_new c rs))"
    using loadData_column [OF assms] by simp_all
  have keys: "\<forall>r\<in>set rs. get r c = Own (Num (number_key c r))"
    using all by (rule number_keys)
  have "ColumnIndex_new c rs =
          Inr \<lparr>ColumnIndex.column = c, ColumnIndex.rows = sort_key (number_key c) rs\<rparr>"
    by (rule ColumnIndex_new_keyed [of Num, OF js_lt_Num keys])
  then show ?thesis using keys idx by simp
qed

lemma loadData_string_column:
  assumes "loadData rs = Inr db" and "get (columnTypes db) c = Own STRING"
  shows "(\<forall>r\<in>set rs. get r c = Own (Str (string_key c r))) \<and>
         get (columnIndices db) c =
           Own \<lparr>ColumnIndex.column = c, ColumnIndex.rows = sort_key (string_key c) rs\<rparr>"
proof -
  have all: "list_all (\<lambda>row. typeof (get row c) = js ''string'') rs"
    and idx: "get (columnIndices db) c = Own (projr (ColumnIndex_new c rs))"
    using loadData_column [OF assms] by simp_all
  have keys: "\<forall>r\<in>set rs. get r c = Own (Str (string_key c r))"
    using all by (rule string_keys)
  have "ColumnIndex_new c rs =
          Inr \<lparr>ColumnIndex.column = c, ColumnIndex.rows = sort_key (string_key c) rs\<rparr>"
    by (rule ColumnIndex_new_keyed [of Str, OF js_lt_Str keys])
  then show ?thesis using keys idx by simp
qed

lemma loadData_not_column:
  assumes "loadData rs = Inr db"
    and "c \<notin> set (Object_keys (rs ! 0))" and "c \<notin> set Object_prototype"
  shows "get (columnTypes db) c = Undefined"
proof -
  from assms(1) obtain types indices
    where types: "buildColumnTypes_reduce (Object_keys (rs ! 0)) rs [] = Inr types"
      and db: "db = \<lparr>columnTypes = types, columnIndices = indices, rows = rs\<rparr>"
    by (rule loadData_Inr_cases)
  have "get types c = get [] c"
    using buildColumnTypes_reduce_get [OF types, of c] assms(2) by simp
  then show ?thesis using assms(3) db by (simp add: get_def)
qed

lemma loadData_Inl:
  assumes "loadData rs = Inl e"
  shows "\<exists>m. e = DataError m"
proof (cases "rs = []")
  case True
  then show ?thesis using assms by (auto simp: loadData_def)
next
  case False
  let ?cols = "Object_keys (rs ! 0)"
  show ?thesis
  proof (cases "buildColumnTypes_reduce ?cols rs []")
    case (Inl e')
    then show ?thesis
      using assms False buildColumnTypes_reduce_Inl [OF Inl]
      by (simp add: loadData_def buildColumnTypes_def)
  next
    case (Inr types)
    have "\<forall>c\<in>set ?cols. \<exists>index. ColumnIndex_new c rs = Inr index"
      using buildColumnTypes_reduce_uniform [OF Inr] ColumnIndex_new_uniform by blast
    then obtain indices where "buildColumnIndices_reduce ?cols rs [] = Inr indices"
      using buildColumnIndices_reduce_get [of ?cols rs "[]"] by auto
    then show ?thesis using assms False Inr
      by (simp add: loadData_def buildColumnTypes_def buildColumnIndices_def)
  qed
qed

text \<open>The three index properties, for a column of one variant.\<close>

lemma searchEqual_index_keyed:
  fixes inj :: "'k::linorder \<Rightarrow> Value"
  assumes lt: "\<And>a b. js_lt (Own (inj a)) (Own (inj b)) = Some (a < b)"
    and inj: "\<And>a b. inj a = inj b \<Longrightarrow> a = b"
    and keys: "\<forall>r\<in>set rs. get r c = Own (inj (k r))"
    and index: "index = \<lparr>ColumnIndex.column = c, ColumnIndex.rows = sort_key k rs\<rparr>"
  shows "searchEqual index (inj kv) =
           Inr (filter (\<lambda>r. get r c = Own (inj kv)) (ColumnIndex.rows index)) \<and>
         filter (\<lambda>r. get r c = Own (inj kv)) (ColumnIndex.rows index) =
           filter (\<lambda>r. get r c = Own (inj kv)) rs"
proof -
  have eq: "\<And>r. r \<in> set rs \<Longrightarrow> (get r c = Own (inj kv)) = (k r = kv)"
    using keys inj by auto
  have f1: "filter (\<lambda>r. get r c = Own (inj kv)) (sort_key k rs) =
            filter (\<lambda>r. k r = kv) (sort_key k rs)"
    by (rule filter_cong) (simp_all add: eq)
  have f2: "filter (\<lambda>r. get r c = Own (inj kv)) rs = filter (\<lambda>r. k r = kv) rs"
    by (rule filter_cong) (simp_all add: eq)
  have "searchEqual index (inj kv) = Inr (filter (\<lambda>r. k r = kv) (ColumnIndex.rows index))"
    using keys by (intro searchEqual_keyed lt) (simp_all add: index)
  then show ?thesis by (simp add: index f1 f2 sort_key_stable)
qed

lemma searchGreaterThan_index_keyed:
  fixes inj :: "'k::linorder \<Rightarrow> Value"
  assumes lt: "\<And>a b. js_lt (Own (inj a)) (Own (inj b)) = Some (a < b)"
    and keys: "\<forall>r\<in>set rs. get r c = Own (inj (k r))"
    and index: "index = \<lparr>ColumnIndex.column = c, ColumnIndex.rows = sort_key k rs\<rparr>"
  shows "\<exists>n\<le>length (ColumnIndex.rows index).
           searchGreaterThan index (inj kv) = Inr (drop n (ColumnIndex.rows index)) \<and>
           drop n (ColumnIndex.rows index) =
             filter (\<lambda>r. js_gt (get r c) (Own (inj kv)) = Some True) (ColumnIndex.rows index) \<and>
           (\<forall>r\<in>set (take n (ColumnIndex.rows index)).
              js_gt (get r c) (Own (inj kv)) = Some False) \<and>
           mset (drop n (ColumnIndex.rows index)) =
             mset (filter (\<lambda>r. js_gt (get r c) (Own (inj kv)) = Some True) rs)"
proof -
  have gt: "\<And>r. r \<in> set rs \<Longrightarrow> js_gt (get r c) (Own (inj kv)) = Some (kv < k r)"
    using keys lt by (simp add: js_gt_def)
  have f1: "filter (\<lambda>r. js_gt (get r c) (Own (inj kv)) = Some True) (sort_key k rs) =
            filter (\<lambda>r. kv < k r) (sort_key k rs)"
    by (rule filter_cong) (simp_all add: gt)
  have f2: "filter (\<lambda>r. js_gt (get r c) (Own (inj kv)) = Some True) rs =
            filter (\<lambda>r. kv < k r) rs"
    by (rule filter_cong) (simp_all add: gt)
  have "\<exists>n\<le>length (ColumnIndex.rows index).
           searchGreaterThan index (inj kv) = Inr (drop n (ColumnIndex.rows index)) \<and>
           drop n (ColumnIndex.rows index) = filter (\<lambda>r. kv < k r) (ColumnIndex.rows index) \<and>
           (\<forall>r\<in>set (take n (ColumnIndex.rows index)). \<not> kv < k r)"
    using keys by (intro searchGreaterThan_keyed lt) (simp_all add: index)
  then obtain n where n: "n \<le> length (sort_key k rs)"
    and run: "searchGreaterThan index (inj kv) = Inr (drop n (sort_key k rs))"
    and flt: "drop n (sort_key k rs) = filter (\<lambda>r. kv < k r) (sort_key k rs)"
    and low: "\<forall>r\<in>set (take n (sort_key k rs)). \<not> kv < k r"
    by (auto simp: index)
  have low': "\<forall>r\<in>set (take n (sort_key k rs)). js_gt (get r c) (Own (inj kv)) = Some False"
  proof
    fix r assume r: "r \<in> set (take n (sort_key k rs))"
    then have "r \<in> set rs" using set_take_subset [of n "sort_key k rs"] by auto
    then show "js_gt (get r c) (Own (inj kv)) = Some False" using gt low r by simp
  qed
  have "mset (filter (\<lambda>r. kv < k r) (sort_key k rs)) = mset (filter (\<lambda>r. kv < k r) rs)"
    by (simp only: mset_filter mset_sort)
  then show ?thesis using n run flt low'
    by (intro exI [of _ n]) (simp add: index f1 f2)
qed


lemmas books_evals =
  js_eq_iff js_less_iff get_def put_def Object_prototype_def Object_keys_def
  books_db_def books_def book_def

lemma books_loadData: "loadData books = Inr books_db"
  by (simp add: loadData_def buildColumnTypes_def buildColumnIndices_def ColumnIndex_new_def
      compareFn_def js_gt_def books_evals)

section \<open>Validation, filter and projection\<close>

lemma index_search_total:
  assumes "loadData rs = Inr db"
    and "get (columnTypes db) c = Own t"
    and "typeof (Own v) = ColumnType_value t"
  shows "\<exists>index eqs gts. get (columnIndices db) c = Own index \<and>
           searchEqual index v = Inr eqs \<and> searchGreaterThan index v = Inr gts"
proof (cases t)
  case NUMBER
  then obtain n where v: "v = Num n" using assms(3) by (auto simp: typeof_number)
  let ?index = "\<lparr>ColumnIndex.column = c, ColumnIndex.rows = sort_key (number_key c) rs\<rparr>"
  have keys: "\<forall>r\<in>set rs. get r c = Own (Num (number_key c r))"
    and idx: "get (columnIndices db) c = Own ?index"
    using loadData_number_column [OF assms(1)] assms(2) NUMBER by simp_all
  have "\<exists>eqs. searchEqual ?index (Num n) = Inr eqs"
    using searchEqual_index_keyed [of Num rs c "number_key c" ?index n, OF js_lt_Num _ keys]
    by simp
  moreover have "\<exists>gts. searchGreaterThan ?index (Num n) = Inr gts"
    using searchGreaterThan_index_keyed [of Num rs c "number_key c" ?index n, OF js_lt_Num keys]
    by auto
  ultimately show ?thesis using idx v by auto
next
  case STRING
  then obtain s where v: "v = Str s" using assms(3) by (auto simp: typeof_string)
  let ?index = "\<lparr>ColumnIndex.column = c, ColumnIndex.rows = sort_key (string_key c) rs\<rparr>"
  have keys: "\<forall>r\<in>set rs. get r c = Own (Str (string_key c r))"
    and idx: "get (columnIndices db) c = Own ?index"
    using loadData_string_column [OF assms(1)] assms(2) STRING by simp_all
  have "\<exists>eqs. searchEqual ?index (Str s) = Inr eqs"
    using searchEqual_index_keyed [of Str rs c "string_key c" ?index s, OF js_lt_Str _ keys]
    by simp
  moreover have "\<exists>gts. searchGreaterThan ?index (Str s) = Inr gts"
    using searchGreaterThan_index_keyed [of Str rs c "string_key c" ?index s, OF js_lt_Str keys]
    by auto
  ultimately show ?thesis using idx v by auto
qed

lemma validateColumns_Inl: "validateColumns db cols = Inl e \<Longrightarrow> \<exists>m. e = QueryError m"
  by (induction cols) (auto split: if_splits)

lemma validateColumns_unknown:
  "c \<in> set cols \<Longrightarrow> get (columnTypes db) c = Undefined \<Longrightarrow>
   \<exists>m. validateColumns db cols = Inl (QueryError m)"
  by (induction cols) auto

lemma validateColumns_first_unknown:
  "\<forall>c\<in>set known. get (columnTypes db) c \<noteq> Undefined \<Longrightarrow>
   get (columnTypes db) c = Undefined \<Longrightarrow>
   validateColumns db (known @ c # cols) = Inl (QueryError (js ''Unknown column: '' @ c))"
  by (induction known) auto

lemma validateQuery_Inl: "validateQuery db q = Inl e \<Longrightarrow> \<exists>m. e = QueryError m"
  by (auto simp: validateQuery_def dest: validateColumns_Inl
      split: sum.splits option.splits if_splits)

lemma validateQuery_filter:
  assumes "validateQuery db q = Inr u" and "filter_opt q = Some f"
  shows "\<exists>t. get (columnTypes db) (QueryFilter.column f) = Own t \<and>
             typeof (Own (operand f)) = ColumnType_value t"
  using assms
  by (auto simp: validateQuery_def split: sum.splits if_splits read.splits)

lemma validateQuery_mismatch:
  assumes "filter_opt q = Some f"
    and "get (columnTypes db) (QueryFilter.column f) = Own t"
    and "typeof (Own (operand f)) \<noteq> ColumnType_value t"
  shows "\<exists>m. validateQuery db q = Inl (QueryError m)"
proof (cases "validateColumns db (Query.columns q)")
  case (Inl e)
  then show ?thesis using validateColumns_Inl [OF Inl] by (auto simp: validateQuery_def)
next
  case (Inr u)
  then show ?thesis using assms by (auto simp: validateQuery_def)
qed

lemma filter_rows_total:
  assumes "loadData rs = Inr db"
    and "validateQuery db q = Inr u" and "filter_opt q = Some f"
    and "QueryFilterOp (op f)"
  shows "\<exists>frows. filter_rows db rows' f = Inr frows"
proof -
  obtain t where "get (columnTypes db) (QueryFilter.column f) = Own t"
    and "typeof (Own (operand f)) = ColumnType_value t"
    using validateQuery_filter [OF assms(2,3)] by blast
  then obtain index eqs gts where "get (columnIndices db) (QueryFilter.column f) = Own index"
    and "searchEqual index (operand f) = Inr eqs"
    and "searchGreaterThan index (operand f) = Inr gts"
    using index_search_total [OF assms(1)] by blast
  then show ?thesis using assms(4) by (auto simp: filter_rows_def QueryFilterOp_def)
qed

lemma filter_rows_no_Coercion:
  assumes "loadData rs = Inr db"
    and "validateQuery db q = Inr u" and "filter_opt q = Some f"
  shows "filter_rows db rows' f \<noteq> Inl Coercion"
proof (cases "QueryFilterOp (op f)")
  case True
  then show ?thesis using filter_rows_total [OF assms True, of rows'] by auto
next
  case False
  then show ?thesis by (simp add: filter_rows_def QueryFilterOp_def)
qed

lemma query_cases:
  "fst (query queryParser text db) =
     (case queryParser text of
        Inl m \<Rightarrow> Inl (QueryError m)
      | Inr q \<Rightarrow>
          (case validateQuery db q of
             Inl e \<Rightarrow> Inl e
           | Inr u \<Rightarrow>
               (case filter_opt q of
                  None \<Rightarrow>
                    Inr \<lparr>QueryResult.columns = Query.columns q,
                         QueryResult.rows = project (Database.rows db) (Query.columns q)\<rparr>
                | Some f \<Rightarrow>
                    (case filter_rows db (Database.rows db) f of
                       Inl e \<Rightarrow> Inl e
                     | Inr frows \<Rightarrow>
                         Inr \<lparr>QueryResult.columns = Query.columns q,
                              QueryResult.rows = project frows (Query.columns q)\<rparr>))))"
  by (simp add: query_def parseQuery_def split: sum.splits option.splits)

text \<open>
  What the check of the projected names does reject: a name that is neither a column of
  the table nor a member of \<^verbatim>\<open>Object.prototype\<close>.
\<close>

lemma unknown_column_rejected:
  assumes "loadData rs = Inr db" and "queryParser text = Inr q"
    and "c \<in> set (Query.columns q)"
    and "c \<notin> set (Object_keys (rs ! 0))" and "c \<notin> set Object_prototype"
  shows "\<exists>m. fst (query queryParser text db) = Inl (QueryError m)"
proof -
  have "get (columnTypes db) c = Undefined"
    using assms(1,4,5) by (rule loadData_not_column)
  then obtain m where "validateColumns db (Query.columns q) = Inl (QueryError m)"
    using validateColumns_unknown [OF assms(3)] by blast
  then show ?thesis using assms(2) by (simp add: query_cases validateQuery_def)
qed

lemma project_row_get_aux:
  "get (fold (\<lambda>col acc. put acc col (get row col)) cols acc) c =
     (if c \<in> set cols \<and> c \<noteq> js ''__proto__'' then Own (get row c) else get acc c)"
  by (induction cols arbitrary: acc) (auto simp: get_put)

lemma project_row_get:
  "c \<in> set cols \<Longrightarrow> c \<noteq> js ''__proto__'' \<Longrightarrow> get (project_row cols row) c = Own (get row c)"
  by (simp add: project_row_def project_row_get_aux)

lemma put_keys: "set (Object_keys (put obj key v)) \<subseteq> insert key (set (Object_keys obj))"
  using dom_update [of key v obj] by (auto simp: put_def Object_keys_def)

lemma project_row_keys_aux:
  "set (Object_keys (fold (\<lambda>col acc. put acc col (get row col)) cols acc))
     \<subseteq> set cols \<union> set (Object_keys acc)"
proof (induction cols arbitrary: acc)
  case Nil
  then show ?case by simp
next
  case (Cons col cols)
  show ?case using Cons.IH [of "put acc col (get row col)"] put_keys [of acc col "get row col"]
    by auto
qed

lemma project_row_keys: "set (Object_keys (project_row cols row)) \<subseteq> set cols"
  using project_row_keys_aux [of row cols "[]"] by (simp add: project_row_def Object_keys_def)

section \<open>Queries on the heap\<close>

text \<open>
  The methods over the store compute what the methods over the table compute, and write
  to new addresses only.
\<close>

declare st_findFirstEqual_loop.simps [simp del]
declare st_findLastEqual_loop.simps [simp del]
declare st_findFirstGreaterThan_loop.simps [simp del]

lemma get_stored_row_object: "get_stored (row_object row) key = get row key"
  by (simp add: get_stored_def get_def row_object_def map_of_map split: option.splits)

lemma get_stored_types_object:
  "get_stored (types_object types) key =
     (case get types key of
        Own t \<Rightarrow> Own (Str (ColumnType_value t))
      | Undefined \<Rightarrow> Undefined
      | Proto k \<Rightarrow> Proto k)"
  by (simp add: get_stored_def get_def types_object_def map_of_map split: option.splits)

lemma those_map_Some:
  "those (map f xs) = Some ys \<longleftrightarrow> list_all2 (\<lambda>x y. f x = Some y) xs ys"
proof (induction xs arbitrary: ys)
  case Nil
  then show ?case by auto
next
  case (Cons x xs)
  then show ?case
    by (cases ys) (auto split: option.splits)
qed

lemma holds_rows_iff:
  "holds_rows st a rs \<longleftrightarrow>
     (\<exists>refs. array_at st a = Some refs \<and>
        list_all2 (\<lambda>r row. object_at st r = Some (row_object row)) refs rs)"
  by (auto simp: holds_rows_def rows_in_def those_map_Some list_all2_map2
      split: option.splits)

lemma take_length_eq_iff: "take (length ys) xs = ys \<longleftrightarrow> (\<exists>zs. xs = ys @ zs)"
proof
  assume "take (length ys) xs = ys"
  then have "xs = ys @ drop (length ys) xs" by (metis append_take_drop_id)
  then show "\<exists>zs. xs = ys @ zs" ..
next
  assume "\<exists>zs. xs = ys @ zs"
  then show "take (length ys) xs = ys" by auto
qed

lemma preserved_iff:
  "preserved st st' \<longleftrightarrow>
     (\<exists>os as. objects st' = objects st @ os \<and> arrays st' = arrays st @ as)"
  by (auto simp: preserved_def take_length_eq_iff)

lemma preserved_refl: "preserved st st"
  by (simp add: preserved_def)

lemma preserved_trans: "preserved st st1 \<Longrightarrow> preserved st1 st2 \<Longrightarrow> preserved st st2"
  by (auto simp: preserved_iff)

lemma preserved_object_at:
  assumes "preserved st st'" and "object_at st a = Some obj"
  shows "object_at st' a = Some obj"
  using assms by (auto simp: preserved_iff object_at_def nth_append split: if_splits)

lemma preserved_array_at:
  assumes "preserved st st'" and "array_at st a = Some xs"
  shows "array_at st' a = Some xs"
  using assms by (auto simp: preserved_iff array_at_def nth_append split: if_splits)

lemma preserved_holds_rows:
  assumes "preserved st st'" and "holds_rows st a rs"
  shows "holds_rows st' a rs"
proof -
  obtain refs where refs: "array_at st a = Some refs"
    and rel: "list_all2 (\<lambda>r row. object_at st r = Some (row_object row)) refs rs"
    using assms(2) by (auto simp: holds_rows_iff)
  have "list_all2 (\<lambda>r row. object_at st' r = Some (row_object row)) refs rs"
    using rel by (rule list_all2_mono) (rule preserved_object_at [OF assms(1)])
  then show ?thesis
    using preserved_array_at [OF assms(1) refs] by (auto simp: holds_rows_iff)
qed

lemma preserved_represents:
  assumes "preserved st st'" and "represents st this db"
  shows "represents st' this db"
proof -
  have "list_all2
        (\<lambda>(key, ref) (key', index).
           key = key' \<and> index_column ref = ColumnIndex.column index \<and>
           holds_rows st' (index_rows ref) (ColumnIndex.rows index))
        (columnIndices_ref this) (columnIndices db)"
    using assms(2) unfolding represents_def
    by (elim conjE list_all2_mono) (auto intro: preserved_holds_rows [OF assms(1)])
  then show ?thesis
    using assms preserved_object_at [OF assms(1)] preserved_holds_rows [OF assms(1)]
    by (simp add: represents_def)
qed

lemma Array_get_related:
  assumes "list_all2 R refs rs"
  shows "(case Array_get rs i of
            None \<Rightarrow> Array_get refs i = None
          | Some row \<Rightarrow> (\<exists>a. Array_get refs i = Some a \<and> R a row))"
  using assms list_all2_lengthD [OF assms] list_all2_nthD [OF assms, of "nat i"]
  by (auto simp: Array_get_def)

lemma st_findFirstEqual_loop_eq:
  assumes col: "index_column ref = ColumnIndex.column this"
    and arr: "array_at st (index_rows ref) = Some refs"
    and rel: "list_all2 (\<lambda>a row. object_at st a = Some (row_object row)) refs
                (ColumnIndex.rows this)"
  shows "st_findFirstEqual_loop st ref v left right result =
         findFirstEqual_loop this v left right result"
proof (induction "nat (right + 1 - left)" arbitrary: left right result rule: less_induct)
  case less
  show ?case
  proof (cases "left \<le> right")
    case False
    then show ?thesis
      by (subst st_findFirstEqual_loop.simps, subst findFirstEqual_loop.simps) simp
  next
    case True
    define mid where "mid = (left + right) div 2"
    have mid: "left \<le> mid" "mid \<le> right" using True by (auto simp: mid_def)
    have ih1: "\<And>res. st_findFirstEqual_loop st ref v (mid + 1) right res =
                     findFirstEqual_loop this v (mid + 1) right res"
      using mid by (intro less.hyps) auto
    have ih2: "\<And>res. st_findFirstEqual_loop st ref v left (mid - 1) res =
                     findFirstEqual_loop this v left (mid - 1) res"
      using mid by (intro less.hyps) auto
    show ?thesis
      using True Array_get_related [OF rel, of mid]
      by (subst st_findFirstEqual_loop.simps, subst findFirstEqual_loop.simps)
         (auto simp: arr col mid_def [symmetric] ih1 ih2 get_stored_row_object
            split: option.splits bool.splits)
  qed
qed

lemma st_findLastEqual_loop_eq:
  assumes col: "index_column ref = ColumnIndex.column this"
    and arr: "array_at st (index_rows ref) = Some refs"
    and rel: "list_all2 (\<lambda>a row. object_at st a = Some (row_object row)) refs
                (ColumnIndex.rows this)"
  shows "st_findLastEqual_loop st ref v left right result =
         findLastEqual_loop this v left right result"
proof (induction "nat (right + 1 - left)" arbitrary: left right result rule: less_induct)
  case less
  show ?case
  proof (cases "left \<le> right")
    case False
    then show ?thesis
      by (subst st_findLastEqual_loop.simps, subst findLastEqual_loop.simps) simp
  next
    case True
    define mid where "mid = (left + right) div 2"
    have mid: "left \<le> mid" "mid \<le> right" using True by (auto simp: mid_def)
    have ih1: "\<And>res. st_findLastEqual_loop st ref v (mid + 1) right res =
                     findLastEqual_loop this v (mid + 1) right res"
      using mid by (intro less.hyps) auto
    have ih2: "\<And>res. st_findLastEqual_loop st ref v left (mid - 1) res =
                     findLastEqual_loop this v left (mid - 1) res"
      using mid by (intro less.hyps) auto
    show ?thesis
      using True Array_get_related [OF rel, of mid]
      by (subst st_findLastEqual_loop.simps, subst findLastEqual_loop.simps)
         (auto simp: arr col mid_def [symmetric] ih1 ih2 get_stored_row_object
            split: option.splits bool.splits)
  qed
qed

lemma st_findFirstGreaterThan_loop_eq:
  assumes col: "index_column ref = ColumnIndex.column this"
    and arr: "array_at st (index_rows ref) = Some refs"
    and rel: "list_all2 (\<lambda>a row. object_at st a = Some (row_object row)) refs
                (ColumnIndex.rows this)"
  shows "st_findFirstGreaterThan_loop st ref v left right result =
         findFirstGreaterThan_loop this v left right result"
proof (induction "nat (right + 1 - left)" arbitrary: left right result rule: less_induct)
  case less
  show ?case
  proof (cases "left \<le> right")
    case False
    then show ?thesis
      by (subst st_findFirstGreaterThan_loop.simps, subst findFirstGreaterThan_loop.simps) simp
  next
    case True
    define mid where "mid = (left + right) div 2"
    have mid: "left \<le> mid" "mid \<le> right" using True by (auto simp: mid_def)
    have ih1: "\<And>res. st_findFirstGreaterThan_loop st ref v (mid + 1) right res =
                     findFirstGreaterThan_loop this v (mid + 1) right res"
      using mid by (intro less.hyps) auto
    have ih2: "\<And>res. st_findFirstGreaterThan_loop st ref v left (mid - 1) res =
                     findFirstGreaterThan_loop this v left (mid - 1) res"
      using mid by (intro less.hyps) auto
    show ?thesis
      using True Array_get_related [OF rel, of mid]
      by (subst st_findFirstGreaterThan_loop.simps, subst findFirstGreaterThan_loop.simps)
         (auto simp: arr col mid_def [symmetric] ih1 ih2 get_stored_row_object
            split: option.splits bool.splits)
  qed
qed

lemma Array_slice_related:
  assumes "list_all2 R refs rs"
  shows "list_all2 R (Array_slice refs start fin) (Array_slice rs start fin)"
  using assms list_all2_lengthD [OF assms]
  by (simp add: Array_slice_def Let_def list_all2_takeI list_all2_dropI)

lemma new_array_holds:
  assumes "list_all2 (\<lambda>a row. object_at st a = Some (row_object row)) refs rs"
  shows "holds_rows (snd (new_array refs st)) (fst (new_array refs st)) rs \<and>
         preserved st (snd (new_array refs st))"
proof -
  let ?st = "st\<lparr>arrays := arrays st @ [refs]\<rparr>"
  have "\<And>a. object_at ?st a = object_at st a" by (simp add: object_at_def)
  then have "list_all2 (\<lambda>a row. object_at ?st a = Some (row_object row)) refs rs"
    using assms by simp
  moreover have "array_at ?st (length (arrays st)) = Some refs" by (simp add: array_at_def)
  ultimately show ?thesis by (auto simp: new_array_def holds_rows_iff preserved_iff)
qed

lemma alloc_refines:
  assumes "list_all2 (\<lambda>a row. object_at st a = Some (row_object row)) refs rs"
  shows "search_refines st (apfst Inr (new_array refs st)) (Inr rs)"
  using new_array_holds [OF assms]
  by (cases "new_array refs st") (auto simp: search_refines_def)

lemma st_searchEqual_refines:
  assumes col: "index_column ref = ColumnIndex.column this"
    and rows: "holds_rows st (index_rows ref) (ColumnIndex.rows this)"
  shows "search_refines st (st_searchEqual st ref v) (searchEqual this v)"
proof -
  obtain refs where arr: "array_at st (index_rows ref) = Some refs"
    and rel: "list_all2 (\<lambda>a row. object_at st a = Some (row_object row)) refs
                (ColumnIndex.rows this)"
    using rows by (auto simp: holds_rows_iff)
  have len: "array_length st (index_rows ref) = int (length (ColumnIndex.rows this))"
    using arr list_all2_lengthD [OF rel] by (simp add: array_length_def)
  have first: "st_findFirstEqual st ref v = findFirstEqual this v"
    by (simp add: st_findFirstEqual_def findFirstEqual_def len
        st_findFirstEqual_loop_eq [OF col arr rel])
  have last: "st_findLastEqual st ref v = findLastEqual this v"
    by (simp add: st_findLastEqual_def findLastEqual_def len
        st_findLastEqual_loop_eq [OF col arr rel])
  have empty: "search_refines st (apfst Inr (new_array [] st)) (Inr [])"
    by (rule alloc_refines) simp
  have slice: "\<And>start fin. search_refines st (st_slice st (index_rows ref) start fin)
                 (Inr (Array_slice (ColumnIndex.rows this) start fin))"
    by (simp add: st_slice_def arr alloc_refines [OF Array_slice_related [OF rel]])
  show ?thesis
  proof (cases "findFirstEqual this v")
    case (Inl e)
    then show ?thesis
      by (simp add: st_searchEqual_def searchEqual_def first search_refines_def)
  next
    case f: (Inr firstIndex)
    show ?thesis
    proof (cases "firstIndex = - 1")
      case True
      then show ?thesis using f empty
        by (simp add: st_searchEqual_def searchEqual_def first)
    next
      case False
      show ?thesis
      proof (cases "findLastEqual this v")
        case (Inl e)
        then show ?thesis using f False
          by (simp add: st_searchEqual_def searchEqual_def first last search_refines_def)
      next
        case (Inr lastIndex)
        then show ?thesis using f False slice
          by (simp add: st_searchEqual_def searchEqual_def first last)
      qed
    qed
  qed
qed

lemma st_searchGreaterThan_refines:
  assumes col: "index_column ref = ColumnIndex.column this"
    and rows: "holds_rows st (index_rows ref) (ColumnIndex.rows this)"
  shows "search_refines st (st_searchGreaterThan st ref v) (searchGreaterThan this v)"
proof -
  obtain refs where arr: "array_at st (index_rows ref) = Some refs"
    and rel: "list_all2 (\<lambda>a row. object_at st a = Some (row_object row)) refs
                (ColumnIndex.rows this)"
    using rows by (auto simp: holds_rows_iff)
  have len: "array_length st (index_rows ref) = int (length (ColumnIndex.rows this))"
    using arr list_all2_lengthD [OF rel] by (simp add: array_length_def)
  have first: "st_findFirstGreaterThan st ref v = findFirstGreaterThan this v"
    by (simp add: st_findFirstGreaterThan_def findFirstGreaterThan_def len
        st_findFirstGreaterThan_loop_eq [OF col arr rel])
  have empty: "search_refines st (apfst Inr (new_array [] st)) (Inr [])"
    by (rule alloc_refines) simp
  have slice: "\<And>start fin. search_refines st (st_slice st (index_rows ref) start fin)
                 (Inr (Array_slice (ColumnIndex.rows this) start fin))"
    by (simp add: st_slice_def arr alloc_refines [OF Array_slice_related [OF rel]])
  show ?thesis
  proof (cases "findFirstGreaterThan this v")
    case (Inl e)
    then show ?thesis
      by (simp add: st_searchGreaterThan_def searchGreaterThan_def first search_refines_def)
  next
    case g: (Inr index)
    show ?thesis
    proof (cases "index = - 1")
      case True
      then show ?thesis using g empty
        by (simp add: st_searchGreaterThan_def searchGreaterThan_def first)
    next
      case False
      then show ?thesis using g slice
        by (simp add: st_searchGreaterThan_def searchGreaterThan_def first len)
    qed
  qed
qed

lemma get_related:
  assumes "list_all2 (\<lambda>(key, x) (key', y). key = key' \<and> R x y) xs ys"
  shows "(case get xs c of
            Own x \<Rightarrow> (\<exists>y. get ys c = Own y \<and> R x y)
          | Undefined \<Rightarrow> get ys c = Undefined
          | Proto k \<Rightarrow> get ys c = Proto k)"
  using assms
proof (induction rule: list_all2_induct)
  case Nil
  then show ?case by (simp add: get_def)
next
  case (Cons x xs y ys)
  then show ?case
    by (cases x; cases y) (auto simp: get_def split: option.splits read.splits if_splits)
qed

lemma st_filter_refines:
  assumes "represents st this db"
  shows "search_refines st (st_filter st this a f) (filter_rows db rs f)"
proof -
  have rel: "case get (columnIndices_ref this) (QueryFilter.column f) of
            Own ref \<Rightarrow> (\<exists>index. get (columnIndices db) (QueryFilter.column f) = Own index \<and>
                         index_column ref = ColumnIndex.column index \<and>
                         holds_rows st (index_rows ref) (ColumnIndex.rows index))
          | Undefined \<Rightarrow> get (columnIndices db) (QueryFilter.column f) = Undefined
          | Proto k \<Rightarrow> get (columnIndices db) (QueryFilter.column f) = Proto k"
    using assms unfolding represents_def
    by (intro get_related [where R = "\<lambda>ref index. index_column ref = ColumnIndex.column index \<and>
           holds_rows st (index_rows ref) (ColumnIndex.rows index)"]) simp
  show ?thesis
  proof (cases "get (columnIndices_ref this) (QueryFilter.column f)")
    case Undefined
    then show ?thesis using rel
      by (simp add: st_filter_def filter_rows_def search_refines_def)
  next
    case (Proto k)
    then show ?thesis using rel
      by (simp add: st_filter_def filter_rows_def search_refines_def)
  next
    case (Own ref)
    then obtain index where "get (columnIndices db) (QueryFilter.column f) = Own index"
      and "index_column ref = ColumnIndex.column index"
      and "holds_rows st (index_rows ref) (ColumnIndex.rows index)"
      using rel by auto
    then show ?thesis
      using Own st_searchEqual_refines [of ref index st "operand f"]
        st_searchGreaterThan_refines [of ref index st "operand f"]
      by (simp add: st_filter_def filter_rows_def) (simp add: search_refines_def)
  qed
qed

lemma st_validateColumns_eq:
  assumes "object_at st (columnTypes_ref this) = Some (types_object (columnTypes db))"
  shows "st_validateColumns st this cols = validateColumns db cols"
  using assms
  by (induction cols) (auto simp: get_stored_types_object split: read.splits)

lemma st_validateQuery_eq:
  assumes "represents st this db"
  shows "st_validateQuery st this q = validateQuery db q"
proof -
  have types: "object_at st (columnTypes_ref this) = Some (types_object (columnTypes db))"
    using assms by (simp add: represents_def)
  have ne: "js ''string'' \<noteq> js ''number''" by (simp add: js_eq_iff)
  have inj: "\<And>t v. (ColumnType_value t = typeof (Own v)) =
               (Own (Str (ColumnType_value t)) = (Own (Str (typeof (Own v))) :: Value read))"
    by simp
  show ?thesis
    by (auto simp: st_validateQuery_def validateQuery_def st_validateColumns_eq [OF types]
        types get_stored_types_object
        split: sum.splits option.splits read.splits)
qed

lemma st_reduce_spec:
  assumes "object_at st row = Some (row_object r)"
    and "object_at st acc = Some obj" and "row \<noteq> acc"
  shows "st_reduce st row cols acc =
           (Inr acc,
            st\<lparr>objects := (objects st)[acc := fold (\<lambda>col a. put a col (get r col)) cols obj]\<rparr>)"
  using assms
proof (induction cols arbitrary: st obj)
  case Nil
  then have "(objects st)[acc := obj] = objects st"
    by (auto simp: object_at_def split: if_splits)
  then show ?case by simp
next
  case (Cons col cols)
  let ?st = "st\<lparr>objects := (objects st)[acc := put obj col (get r col)]\<rparr>"
  have acc: "acc < length (objects st)" and row: "row < length (objects st)"
    using Cons.prems by (auto simp: object_at_def split: if_splits)
  have set: "set_property st acc col (get_stored (row_object r) col) = Some ?st"
    using Cons.prems(2) by (simp add: set_property_def get_stored_row_object)
  have r': "object_at ?st row = Some (row_object r)"
    using Cons.prems(1,3) row by (auto simp: object_at_def split: if_splits)
  have a': "object_at ?st acc = Some (put obj col (get r col))"
    using acc by (simp add: object_at_def)
  show ?case
    using Cons.IH [OF r' a' Cons.prems(3)] Cons.prems(1) set by simp
qed

lemma st_map_spec:
  assumes "list_all2 (\<lambda>a row. object_at st a = Some (row_object row)) refs rs"
  shows "st_map st refs cols =
           (Inr [length (objects st) ..< length (objects st) + length rs],
            st\<lparr>objects := objects st @ map (project_row cols) rs\<rparr>)"
  using assms
proof (induction refs arbitrary: rs st)
  case Nil
  then show ?case by simp
next
  case (Cons a refs rs0)
  then obtain row rs where rs0: "rs0 = row # rs"
    and hd: "object_at st a = Some (row_object row)"
    and tl: "list_all2 (\<lambda>a row. object_at st a = Some (row_object row)) refs rs"
    by (auto simp: list_all2_Cons1)
  let ?n = "length (objects st)"
  let ?st1 = "st\<lparr>objects := objects st @ [[]]\<rparr>"
  let ?st2 = "st\<lparr>objects := objects st @ [project_row cols row]\<rparr>"
  have a: "a < ?n" "objects st ! a = row_object row"
    using hd by (auto simp: object_at_def split: if_splits)
  have r1: "object_at ?st1 a = Some (row_object row)"
    using a by (simp add: object_at_def nth_append)
  have n1: "object_at ?st1 ?n = Some []" by (simp add: object_at_def)
  have "st_reduce ?st1 a cols ?n =
          (Inr ?n, ?st1\<lparr>objects := (objects ?st1)[?n := fold (\<lambda>col acc. put acc col (get row col)) cols []]\<rparr>)"
  proof (rule st_reduce_spec [OF r1 n1])
    show "a \<noteq> ?n" using a(1) by simp
  qed
  then have red: "st_reduce ?st1 a cols ?n = (Inr ?n, ?st2)"
    by (simp add: project_row_def)
  have "list_all2 (\<lambda>a row. object_at ?st2 a = Some (row_object row)) refs rs"
    using tl
    by (rule list_all2_mono) (auto simp: object_at_def nth_append split: if_splits)
  then have rest: "st_map ?st2 refs cols =
           (Inr [Suc ?n ..< Suc ?n + length rs],
            ?st2\<lparr>objects := objects ?st2 @ map (project_row cols) rs\<rparr>)"
    using Cons.IH [of ?st2 rs] by simp
  have upt: "[?n ..< ?n + length rs0] = ?n # [Suc ?n ..< Suc ?n + length rs]"
    unfolding rs0 by (subst upt_conv_Cons) simp_all
  show ?case
    unfolding upt by (simp add: rs0 new_object_def red rest del: upt_Suc)
qed

lemma st_project_spec:
  assumes "holds_rows st a rs"
  shows "\<exists>a' st'. st_project st a cols = (Inr a', st') \<and> preserved st st' \<and>
           rows_in st' a' = Some (project rs cols)"
proof -
  obtain refs where arr: "array_at st a = Some refs"
    and rel: "list_all2 (\<lambda>r row. object_at st r = Some (row_object row)) refs rs"
    using assms by (auto simp: holds_rows_iff)
  let ?n = "length (objects st)"
  let ?new = "[?n ..< ?n + length rs]"
  let ?st1 = "st\<lparr>objects := objects st @ map (project_row cols) rs\<rparr>"
  let ?st2 = "?st1\<lparr>arrays := arrays st @ [?new]\<rparr>"
  have run: "st_project st a cols = (Inr (length (arrays st)), ?st2)"
    by (simp add: st_project_def arr st_map_spec [OF rel] new_array_def)
  have "list_all2 (\<lambda>x y. object_at ?st2 x = Some y) ?new (map (project_row cols) rs)"
    by (auto simp: list_all2_conv_all_nth object_at_def nth_append)
  then have "rows_in ?st2 (length (arrays st)) = Some (project rs cols)"
    by (simp add: rows_in_def array_at_def those_map_Some project_def)
  moreover have "preserved st ?st2" by (simp add: preserved_iff)
  ultimately show ?thesis using run by blast
qed

lemma st_query_refines:
  assumes "represents st this db"
    and "st_query queryParser text this st = (out, st')"
  shows "preserved st st' \<and> outcome_in st' out = Some (fst (query queryParser text db))"
proof (cases "queryParser text")
  case (Inl m)
  then show ?thesis using assms(2)
    by (auto simp: st_query_def query_cases parseQuery_def outcome_in_def preserved_refl)
next
  case (Inr q)
  show ?thesis
  proof (cases "validateQuery db q")
    case (Inl e)
    then show ?thesis using assms(2) Inr st_validateQuery_eq [OF assms(1), of q]
      by (auto simp: st_query_def query_cases parseQuery_def outcome_in_def preserved_refl)
  next
    case valid: (Inr u)
    have v: "st_validateQuery st this q = Inr u"
      using valid st_validateQuery_eq [OF assms(1), of q] by simp
    show ?thesis
    proof (cases "filter_opt q")
      case None
      have rows: "holds_rows st (rows_ref this) (Database.rows db)"
        using assms(1) by (simp add: represents_def)
      obtain a' st2 where p: "st_project st (rows_ref this) (Query.columns q) = (Inr a', st2)"
        and pres: "preserved st st2"
        and res: "rows_in st2 a' = Some (project (Database.rows db) (Query.columns q))"
        using st_project_spec [OF rows] by blast
      show ?thesis using assms(2) Inr v None valid p pres res
        by (auto simp: st_query_def query_cases parseQuery_def outcome_in_def)
    next
      case (Some f)
      have fr: "search_refines st (st_filter st this (rows_ref this) f)
                  (filter_rows db (Database.rows db) f)"
        by (rule st_filter_refines [OF assms(1)])
      show ?thesis
      proof (cases "filter_rows db (Database.rows db) f")
        case (Inl e)
        then have "st_filter st this (rows_ref this) f = (Inl e, st)"
          using fr by (simp add: search_refines_def)
        then show ?thesis using assms(2) Inr v Some valid Inl
          by (auto simp: st_query_def query_cases parseQuery_def outcome_in_def preserved_refl)
      next
        case frows: (Inr frows)
        then obtain a1 st1 where f1: "st_filter st this (rows_ref this) f = (Inr a1, st1)"
          and pres1: "preserved st st1" and rows1: "holds_rows st1 a1 frows"
          using fr by (auto simp: search_refines_def)
        obtain a' st2 where p: "st_project st1 a1 (Query.columns q) = (Inr a', st2)"
          and pres2: "preserved st1 st2"
          and res: "rows_in st2 a' = Some (project frows (Query.columns q))"
          using st_project_spec [OF rows1] by blast
        have "preserved st st2" using pres1 pres2 by (rule preserved_trans)
        then show ?thesis using assms(2) Inr v Some valid frows f1 p res
          by (auto simp: st_query_def query_cases parseQuery_def outcome_in_def)
      qed
    qed
  qed
qed

lemma preserved_outcome_in:
  assumes "preserved st st'" and "outcome_in st out = Some x"
  shows "outcome_in st' out = Some x"
proof (cases out)
  case (Inl e)
  then show ?thesis using assms(2) by (simp add: outcome_in_def)
next
  case (Inr r)
  then obtain rs where rs: "rows_in st (result_rows r) = Some rs"
    using assms(2) by (auto simp: outcome_in_def)
  then obtain refs where refs: "array_at st (result_rows r) = Some refs"
    and rel: "list_all2 (\<lambda>a obj. object_at st a = Some obj) refs rs"
    by (auto simp: rows_in_def those_map_Some split: option.splits)
  have "list_all2 (\<lambda>a obj. object_at st' a = Some obj) refs rs"
    using rel by (rule list_all2_mono) (rule preserved_object_at [OF assms(1)])
  then have "rows_in st' (result_rows r) = Some rs"
    using preserved_array_at [OF assms(1) refs] by (simp add: rows_in_def those_map_Some)
  then show ?thesis using assms(2) Inr rs by (simp add: outcome_in_def)
qed

text \<open>Every table is held by some store.\<close>

lemma rows_allocatable: "\<exists>a st'. preserved (st :: store) st' \<and> holds_rows st' a rs"
proof -
  let ?n = "length (objects st)"
  let ?new = "[?n ..< ?n + length rs]"
  let ?st = "st\<lparr>objects := objects st @ map row_object rs, arrays := arrays st @ [?new]\<rparr>"
  have "list_all2 (\<lambda>r row. object_at ?st r = Some (row_object row)) ?new rs"
    by (auto simp: list_all2_conv_all_nth object_at_def nth_append)
  then have "holds_rows ?st (length (arrays st)) rs"
    by (auto simp: holds_rows_iff array_at_def)
  moreover have "preserved st ?st" by (simp add: preserved_iff)
  ultimately show ?thesis by blast
qed

lemma indices_allocatable:
  "\<exists>(refs :: ColumnIndex_ref object) st'. preserved (st :: store) st' \<and>
     list_all2
       (\<lambda>(key, ref) (key', index).
          key = key' \<and> index_column ref = ColumnIndex.column index \<and>
          holds_rows st' (index_rows ref) (ColumnIndex.rows index))
       refs indices"
proof (induction indices arbitrary: st)
  case Nil
  show ?case using preserved_refl [of st] by auto
next
  case (Cons ki indices)
  obtain key index where ki: "ki = (key, index)" by (cases ki)
  obtain a st1 where st1: "preserved st st1" "holds_rows st1 a (ColumnIndex.rows index)"
    using rows_allocatable by blast
  obtain refs :: "ColumnIndex_ref object" and st2 where st2: "preserved st1 st2"
    and rel: "list_all2
       (\<lambda>(key, ref) (key', index).
          key = key' \<and> index_column ref = ColumnIndex.column index \<and>
          holds_rows st2 (index_rows ref) (ColumnIndex.rows index))
       refs indices"
    using Cons [of st1] by blast
  let ?ref = "\<lparr>index_column = ColumnIndex.column index, index_rows = a\<rparr>"
  have "holds_rows st2 a (ColumnIndex.rows index)"
    using st2 st1(2) by (rule preserved_holds_rows)
  then have "list_all2
       (\<lambda>(key, ref) (key', index).
          key = key' \<and> index_column ref = ColumnIndex.column index \<and>
          holds_rows st2 (index_rows ref) (ColumnIndex.rows index))
       ((key, ?ref) # refs) (ki # indices)"
    using rel by (simp add: ki)
  moreover have "preserved st st2" using st1(1) st2 by (rule preserved_trans)
  ultimately show ?case by blast
qed

lemma represents_exists: "\<exists>st this. represents st this db"
proof -
  let ?st0 = "\<lparr>objects = [types_object (columnTypes db)], arrays = []\<rparr>"
  have t0: "object_at ?st0 0 = Some (types_object (columnTypes db))"
    by (simp add: object_at_def)
  obtain a st1 where st1: "preserved ?st0 st1" "holds_rows st1 a (Database.rows db)"
    using rows_allocatable by blast
  obtain refs :: "ColumnIndex_ref object" and st2 where st2: "preserved st1 st2"
    and rel: "list_all2
       (\<lambda>(key, ref) (key', index).
          key = key' \<and> index_column ref = ColumnIndex.column index \<and>
          holds_rows st2 (index_rows ref) (ColumnIndex.rows index))
       refs (columnIndices db)"
    using indices_allocatable by blast
  have "object_at st2 0 = Some (types_object (columnTypes db))"
    using st2 preserved_object_at [OF st1(1) t0] by (rule preserved_object_at)
  moreover have "holds_rows st2 a (Database.rows db)"
    using st2 st1(2) by (rule preserved_holds_rows)
  ultimately have
    "represents st2 \<lparr>columnTypes_ref = 0, columnIndices_ref = refs, rows_ref = a\<rparr> db"
    using rel by (simp add: represents_def)
  then show ?thesis by blast
qed

text \<open>The test \<^verbatim>\<open>PROJECT title FILTER year = 2021\<close>, run twice on the store of the test suite.\<close>

lemma books_represents: "represents books_store books_ref books_db"
  by (simp add: represents_def books_store_def books_ref_def books_db_def books_def
      holds_rows_def rows_in_def array_at_def object_at_def nth_append)

lemmas books_store_evals =
  st_query_def parseQuery_def parsed_as_def st_validateQuery_def st_filter_def
  st_searchEqual_def st_findFirstEqual_def st_findLastEqual_def
  st_findFirstEqual_loop.simps st_findLastEqual_loop.simps st_slice_def
  st_project_def new_array_def new_object_def set_property_def
  array_length_def array_at_def object_at_def get_stored_def row_object_def types_object_def
  books_store_def books_ref_def Array_get_def Array_slice_def js_gt_def nth_append
  js_eq_iff js_less_iff get_def put_def Object_prototype_def books_def book_def

lemma books_st_query_eval:
  "st_query
     (parsed_as \<lparr>Query.columns = [js ''title''],
        filter_opt = Some \<lparr>QueryFilter.column = js ''year'', op = js ''='', operand = Num 2021\<rparr>\<rparr>)
     (js ''PROJECT title FILTER year = 2021'') books_ref books_store =
   (Inr \<lparr>result_columns = [js ''title''], result_rows = 5\<rparr>,
    books_store
      \<lparr>objects := objects books_store @
         [[(js ''title'', Own (Str (js ''Crafting Interpreters'')))],
          [(js ''title'', Own (Str (js ''Python Distilled'')))]],
       arrays := arrays books_store @ [[2, 3], [6, 7]]\<rparr>)"
  by (simp add: books_store_evals)

lemma books_st_query_again:
  "st_query
     (parsed_as \<lparr>Query.columns = [js ''title''],
        filter_opt = Some \<lparr>QueryFilter.column = js ''year'', op = js ''='', operand = Num 2021\<rparr>\<rparr>)
     (js ''PROJECT title FILTER year = 2021'') books_ref
     (books_store
        \<lparr>objects := objects books_store @
           [[(js ''title'', Own (Str (js ''Crafting Interpreters'')))],
            [(js ''title'', Own (Str (js ''Python Distilled'')))]],
         arrays := arrays books_store @ [[2, 3], [6, 7]]\<rparr>) =
   (Inr \<lparr>result_columns = [js ''title''], result_rows = 7\<rparr>,
    books_store
      \<lparr>objects := objects books_store @
         [[(js ''title'', Own (Str (js ''Crafting Interpreters'')))],
          [(js ''title'', Own (Str (js ''Python Distilled'')))],
          [(js ''title'', Own (Str (js ''Crafting Interpreters'')))],
          [(js ''title'', Own (Str (js ''Python Distilled'')))]],
       arrays := arrays books_store @ [[2, 3], [6, 7], [2, 3], [8, 9]]\<rparr>)"
  by (simp add: books_store_evals)

lemma books_query_2021:
  "fst (query
     (parsed_as \<lparr>Query.columns = [js ''title''],
        filter_opt = Some \<lparr>QueryFilter.column = js ''year'', op = js ''='', operand = Num 2021\<rparr>\<rparr>)
     (js ''PROJECT title FILTER year = 2021'') books_db) =
   Inr \<lparr>QueryResult.columns = [js ''title''],
        QueryResult.rows =
          [[(js ''title'', Own (Str (js ''Crafting Interpreters'')))],
           [(js ''title'', Own (Str (js ''Python Distilled'')))]]\<rparr>"
  by (simp add: books_evals validateQuery_def query_def parseQuery_def parsed_as_def
      filter_rows_def searchEqual_def findFirstEqual_def findLastEqual_def
      findFirstEqual_loop.simps findLastEqual_loop.simps Array_get_def Array_slice_def
      js_gt_def project_def project_row_def)

section \<open>The column index\<close>



text \<open>
  C1. On a constructed table, for a column \<open>c\<close> of the schema and an operand \<open>v\<close> of the
  column's declared type, \<open>searchEqual\<close> on the index of \<open>c\<close> returns exactly the rows whose
  value in \<open>c\<close> is \<open>v\<close> (none when there is none), as they stand in the index, which is their
  load order.
\<close>

theorem searchEqual_returns_matches:
  assumes "loadData rs = Inr db"
    and "get (columnTypes db) c = Own t"
    and "typeof (Own v) = ColumnType_value t"
  shows "\<exists>index. get (columnIndices db) c = Own index \<and>
           searchEqual index v = Inr (filter (\<lambda>r. get r c = Own v) (ColumnIndex.rows index)) \<and>
           filter (\<lambda>r. get r c = Own v) (ColumnIndex.rows index) =
             filter (\<lambda>r. get r c = Own v) (Database.rows db)"
proof (cases t)
  case NUMBER
  then obtain n where v: "v = Num n" using assms(3) by (auto simp: typeof_number)
  let ?index = "\<lparr>ColumnIndex.column = c, ColumnIndex.rows = sort_key (number_key c) rs\<rparr>"
  have keys: "\<forall>r\<in>set rs. get r c = Own (Num (number_key c r))"
    and idx: "get (columnIndices db) c = Own ?index"
    using loadData_number_column [OF assms(1)] assms(2) NUMBER by simp_all
  have "searchEqual ?index (Num n) =
           Inr (filter (\<lambda>r. get r c = Own (Num n)) (ColumnIndex.rows ?index)) \<and>
         filter (\<lambda>r. get r c = Own (Num n)) (ColumnIndex.rows ?index) =
           filter (\<lambda>r. get r c = Own (Num n)) rs"
    using keys by (intro searchEqual_index_keyed [of Num]) simp_all
  then show ?thesis using idx v loadData_rows [OF assms(1)] by simp
next
  case STRING
  then obtain s where v: "v = Str s" using assms(3) by (auto simp: typeof_string)
  let ?index = "\<lparr>ColumnIndex.column = c, ColumnIndex.rows = sort_key (string_key c) rs\<rparr>"
  have keys: "\<forall>r\<in>set rs. get r c = Own (Str (string_key c r))"
    and idx: "get (columnIndices db) c = Own ?index"
    using loadData_string_column [OF assms(1)] assms(2) STRING by simp_all
  have "searchEqual ?index (Str s) =
           Inr (filter (\<lambda>r. get r c = Own (Str s)) (ColumnIndex.rows ?index)) \<and>
         filter (\<lambda>r. get r c = Own (Str s)) (ColumnIndex.rows ?index) =
           filter (\<lambda>r. get r c = Own (Str s)) rs"
    using keys by (intro searchEqual_index_keyed [of Str]) simp_all
  then show ?thesis using idx v loadData_rows [OF assms(1)] by simp
qed

text \<open>The test \<^verbatim>\<open>PROJECT title FILTER year = 2021\<close>.\<close>

theorem searchEqual_returns_matches_witness:
  "loadData books = Inr books_db \<and>
   get (columnTypes books_db) (js ''year'') = Own NUMBER \<and>
   typeof (Own (Num 2021)) = ColumnType_value NUMBER \<and>
   searchEqual (the_own (get (columnIndices books_db) (js ''year''))) (Num 2021) =
     Inr [book ''Crafting Interpreters'' ''Robert Nystrom'' 2021,
          book ''Python Distilled'' ''David Beazley'' 2021]"
proof -
  have h1: "loadData books = Inr books_db" by (rule books_loadData)
  have h2: "get (columnTypes books_db) (js ''year'') = Own NUMBER" by (simp add: js_gt_def books_evals)
  have h3: "typeof (Own (Num 2021)) = ColumnType_value NUMBER" by simp
  have e: "filter (\<lambda>r. get r (js ''year'') = Own (Num 2021)) (Database.rows books_db) =
             [book ''Crafting Interpreters'' ''Robert Nystrom'' 2021,
              book ''Python Distilled'' ''David Beazley'' 2021]"
    by (simp add: js_gt_def books_evals)
  from searchEqual_returns_matches [OF h1 h2 h3] obtain index
    where "get (columnIndices books_db) (js ''year'') = Own index"
      and "searchEqual index (Num 2021) =
             Inr (filter (\<lambda>r. get r (js ''year'') = Own (Num 2021)) (ColumnIndex.rows index))"
      and "filter (\<lambda>r. get r (js ''year'') = Own (Num 2021)) (ColumnIndex.rows index) =
             filter (\<lambda>r. get r (js ''year'') = Own (Num 2021)) (Database.rows books_db)"
    by blast
  then show ?thesis using h1 h2 h3 e by simp
qed



section \<open>Construction\<close>

text \<open>
  C6. The constructor throws \<open>DataError\<close> when the reader returns no row, and when some column
  of the first row's keys holds a string in one row and a number in another. Whenever it
  throws, the exception is a \<open>DataError\<close> and no table is returned.
\<close>

theorem construction_fails_with_DataError:
  "(parseCsv csv cast = Inr [] \<longrightarrow>
      Database_new parseCsv csv =
        Inl (DataError (js ''Loaded data must contain at least one row.'')))
   \<and> (parseCsv csv cast = Inr rs \<and> rs \<noteq> [] \<and> c \<in> set (Object_keys (rs ! 0)) \<and>
        r1 \<in> set rs \<and> r2 \<in> set rs \<and>
        typeof (get r1 c) = js ''string'' \<and> typeof (get r2 c) = js ''number'' \<longrightarrow>
      (\<exists>m. Database_new parseCsv csv = Inl (DataError m)))
   \<and> (Database_new parseCsv csv = Inl e \<longrightarrow>
        (\<exists>m. e = DataError m) \<and> (\<forall>db. Database_new parseCsv csv \<noteq> Inr db))"
proof (intro conjI impI)
  assume "parseCsv csv cast = Inr []"
  then show "Database_new parseCsv csv =
      Inl (DataError (js ''Loaded data must contain at least one row.''))"
    by (simp add: Database_new_def loadRows_def loadData_def)
next
  assume a: "parseCsv csv cast = Inr rs \<and> rs \<noteq> [] \<and> c \<in> set (Object_keys (rs ! 0)) \<and>
        r1 \<in> set rs \<and> r2 \<in> set rs \<and>
        typeof (get r1 c) = js ''string'' \<and> typeof (get r2 c) = js ''number''"
  have ne: "js ''string'' \<noteq> js ''number''" by (simp add: js_def)
  have "\<not> list_all (\<lambda>row. typeof (get row c) = js ''string'') rs"
    using a ne by (auto simp: list_all_iff intro!: bexI [of _ r2])
  moreover have "\<not> list_all (\<lambda>row. typeof (get row c) = js ''number'') rs"
    using a ne by (auto simp: list_all_iff intro!: bexI [of _ r1])
  ultimately obtain m where
    "buildColumnTypes_reduce (Object_keys (rs ! 0)) rs [] = Inl (DataError m)"
    using a buildColumnTypes_reduce_mixed [of c "Object_keys (rs ! 0)" rs "[]"] by blast
  then show "\<exists>m. Database_new parseCsv csv = Inl (DataError m)"
    using a by (simp add: Database_new_def loadRows_def loadData_def buildColumnTypes_def)
next
  assume a: "Database_new parseCsv csv = Inl e"
  show "\<exists>m. e = DataError m"
  proof (cases "parseCsv csv cast")
    case (Inl m)
    then show ?thesis using a by (auto simp: Database_new_def loadRows_def)
  next
    case (Inr rs)
    then have "loadData rs = Inl e" using a by (simp add: Database_new_def loadRows_def)
    then show ?thesis by (rule loadData_Inl)
  qed
next
  assume "Database_new parseCsv csv = Inl e"
  then show "\<forall>db. Database_new parseCsv csv \<noteq> Inr db" by simp
qed

text \<open>A reader that returns no row, and one that returns the cells \<^verbatim>\<open>n/a\<close> and \<^verbatim>\<open>1965\<close> in one column.\<close>

theorem construction_fails_with_DataError_witness:
  "Database_new (\<lambda>csv cast'. Inr []) (js ''title,year'') =
     Inl (DataError (js ''Loaded data must contain at least one row.''))
   \<and> [(js ''year'', cast (js ''n/a''))] \<in> set [[(js ''year'', cast (js ''n/a''))], [(js ''year'', cast (js ''1965''))]]
   \<and> typeof (get [(js ''year'', cast (js ''n/a''))] (js ''year'')) = js ''string''
   \<and> typeof (get [(js ''year'', cast (js ''1965''))] (js ''year'')) = js ''number''
   \<and> (\<exists>m. Database_new
            (\<lambda>csv cast'. Inr [[(js ''year'', cast' (js ''n/a''))], [(js ''year'', cast' (js ''1965''))]])
            (js ''year'') = Inl (DataError m))"
proof -
  let ?r1 = "[(js ''year'', cast (js ''n/a''))]"
  let ?r2 = "[(js ''year'', cast (js ''1965''))]"
  let ?p = "\<lambda>(csv::jsstring) (cast'::jsstring \<Rightarrow> Value). (Inr [[(js ''year'', cast' (js ''n/a''))], [(js ''year'', cast' (js ''1965''))]] :: jsstring + Row list)"
  have c1: "cast (js ''n/a'') = Str (js ''n/a'')"
    by (simp add: cast_def test_digits_def isDigit_def js_def)
  have c2: "cast (js ''1965'') = Num (parseInt10 (js ''1965''))"
    by (simp add: cast_def test_digits_def isDigit_def js_def)
  have t1: "typeof (get ?r1 (js ''year'')) = js ''string''" by (simp add: c1 get_def)
  have t2: "typeof (get ?r2 (js ''year'')) = js ''number''" by (simp add: c2 get_def)
  have e: "Database_new (\<lambda>csv cast'. Inr []) (js ''title,year'') =
     Inl (DataError (js ''Loaded data must contain at least one row.''))"
    using construction_fails_with_DataError
      [of "\<lambda>csv cast'. Inr []" "js ''title,year''"] by simp
  have "\<exists>m. Database_new ?p (js ''year'') = Inl (DataError m)"
    using construction_fails_with_DataError
      [of ?p "js ''year''" "[?r1, ?r2]" "js ''year''" ?r1 ?r2] t1 t2
    by (simp add: Object_keys_def)
  then show ?thesis using e t1 t2 by simp
qed

section \<open>Validation\<close>

text \<open>
  C4 says that every projected name outside the schema raises \<open>QueryError\<close>, the names of
  \<^verbatim>\<open>Object.prototype\<close> included. The code tests \<^verbatim>\<open>this.columnTypes[column] === undefined\<close> on an
  object that inherits \<^verbatim>\<open>toString\<close>: on the table of the test suite the query
  \<^verbatim>\<open>PROJECT toString\<close> passes validation and returns five rows.
\<close>

theorem inherited_name_passes_validation:
  "loadData books = Inr books_db \<and>
   get (columnTypes books_db) (js ''toString'') = Proto (js ''toString'') \<and>
   validateQuery books_db \<lparr>Query.columns = [js ''toString''], filter_opt = None\<rparr> = Inr () \<and>
   fst (query (parsed_as \<lparr>Query.columns = [js ''toString''], filter_opt = None\<rparr>)
          (js ''PROJECT toString'') books_db) =
     Inr \<lparr>QueryResult.columns = [js ''toString''],
          QueryResult.rows = replicate 5 [(js ''toString'', Proto (js ''toString''))]\<rparr>"
proof -
  have "fst (query (parsed_as \<lparr>Query.columns = [js ''toString''], filter_opt = None\<rparr>)
          (js ''PROJECT toString'') books_db) =
     Inr \<lparr>QueryResult.columns = [js ''toString''],
          QueryResult.rows = replicate 5 [(js ''toString'', Proto (js ''toString''))]\<rparr>"
    by (simp add: books_evals validateQuery_def query_def parseQuery_def parsed_as_def project_def project_row_def numeral_eq_Suc)
  moreover have "get (columnTypes books_db) (js ''toString'') = Proto (js ''toString'')"
    by (simp add: books_evals validateQuery_def query_def parseQuery_def parsed_as_def project_def project_row_def numeral_eq_Suc)
  moreover have "validateQuery books_db \<lparr>Query.columns = [js ''toString''], filter_opt = None\<rparr> = Inr ()"
    by (simp add: books_evals validateQuery_def query_def parseQuery_def parsed_as_def project_def project_row_def numeral_eq_Suc)
  ultimately show ?thesis using books_loadData by simp
qed

text \<open>
  C5. On a constructed table, a query whose filter names a column of the schema with an
  operand of another type than the column's is rejected by \<open>validateQuery\<close> with a
  \<open>QueryError\<close>, which is the outcome of \<open>query\<close>; and no query at all reaches a comparison
  of values of different types (the outcome \<open>Coercion\<close>).
\<close>

theorem mismatched_operand_is_rejected:
  assumes "loadData rs = Inr db"
  shows "(queryParser text = Inr q \<and> filter_opt q = Some f \<and>
          get (columnTypes db) (QueryFilter.column f) = Own t \<and>
          typeof (Own (operand f)) \<noteq> ColumnType_value t \<longrightarrow>
            (\<exists>m. validateQuery db q = Inl (QueryError m) \<and>
                 fst (query queryParser text db) = Inl (QueryError m)))
         \<and> fst (query queryParser' text' db) \<noteq> Inl Coercion"
proof (intro conjI impI)
  assume a: "queryParser text = Inr q \<and> filter_opt q = Some f \<and>
          get (columnTypes db) (QueryFilter.column f) = Own t \<and>
          typeof (Own (operand f)) \<noteq> ColumnType_value t"
  then obtain m where "validateQuery db q = Inl (QueryError m)"
    using validateQuery_mismatch [of q f db t] by blast
  then show "\<exists>m. validateQuery db q = Inl (QueryError m) \<and>
                 fst (query queryParser text db) = Inl (QueryError m)"
    using a by (simp add: query_cases)
next
  show "fst (query queryParser' text' db) \<noteq> Inl Coercion"
  proof (cases "queryParser' text'")
    case (Inl m)
    then show ?thesis by (simp add: query_cases)
  next
    case (Inr q)
    show ?thesis
    proof (cases "validateQuery db q")
      case (Inl e)
      then show ?thesis using Inr validateQuery_Inl [OF Inl] by (auto simp: query_cases)
    next
      case valid: (Inr u)
      show ?thesis
      proof (cases "filter_opt q")
        case None
        then show ?thesis using Inr valid by (simp add: query_cases)
      next
        case (Some f)
        then show ?thesis
          using Inr valid filter_rows_no_Coercion [OF assms valid Some, of "Database.rows db"]
          by (auto simp: query_cases split: sum.splits)
      qed
    qed
  qed
qed

text \<open>The test \<^verbatim>\<open>PROJECT title FILTER title = 2021\<close>.\<close>

theorem mismatched_operand_is_rejected_witness:
  "loadData books = Inr books_db \<and>
   parsed_as \<lparr>Query.columns = [js ''title''],
              filter_opt = Some \<lparr>QueryFilter.column = js ''title'', op = js ''='', operand = Num 2021\<rparr>\<rparr>
     (js ''PROJECT title FILTER title = 2021'') =
     Inr \<lparr>Query.columns = [js ''title''],
          filter_opt = Some \<lparr>QueryFilter.column = js ''title'', op = js ''='', operand = Num 2021\<rparr>\<rparr> \<and>
   get (columnTypes books_db) (js ''title'') = Own STRING \<and>
   typeof (Own (Num 2021)) \<noteq> ColumnType_value STRING \<and>
   (\<exists>m. fst (query
       (parsed_as \<lparr>Query.columns = [js ''title''],
                   filter_opt = Some \<lparr>QueryFilter.column = js ''title'', op = js ''='', operand = Num 2021\<rparr>\<rparr>)
       (js ''PROJECT title FILTER title = 2021'') books_db) = Inl (QueryError m))"
proof -
  let ?f = "\<lparr>QueryFilter.column = js ''title'', op = js ''='', operand = Num 2021\<rparr>"
  let ?q = "\<lparr>Query.columns = [js ''title''], filter_opt = Some ?f\<rparr>"
  have h2: "get (columnTypes books_db) (js ''title'') = Own STRING" by (simp add: books_evals validateQuery_def query_def parseQuery_def parsed_as_def project_def project_row_def numeral_eq_Suc)
  have h3: "typeof (Own (Num 2021)) \<noteq> ColumnType_value STRING" by (simp add: js_def)
  show ?thesis
    using mismatched_operand_is_rejected [OF books_loadData,
        of "parsed_as ?q" "js ''PROJECT title FILTER title = 2021''" ?q ?f STRING]
      h2 h3 books_loadData
    by (auto simp: parsed_as_def)
qed




section \<open>Projection\<close>

text \<open>
  C7. On a constructed table, a parsed query that passes validation returns one projected
  row for each row of the filter stage, in the same order: the \<open>i\<close>-th result is the
  projection of the \<open>i\<close>-th filtered row, it has no other key than the requested columns, and
  it holds for each of them what the filtered row holds. Without a filter the filter stage
  is the rows of the table in load order.
\<close>

theorem projection_preserves_order:
  assumes "loadData rs = Inr db"
    and "queryParser text = Inr q"
    and "validateQuery db q = Inr ()"
    and "\<forall>f. filter_opt q = Some f \<longrightarrow> QueryFilterOp (op f)"
  shows "\<exists>frows res.
           (case filter_opt q of
              None \<Rightarrow> frows = Database.rows db
            | Some f \<Rightarrow> filter_rows db (Database.rows db) f = Inr frows) \<and>
           fst (query queryParser text db) = Inr res \<and>
           QueryResult.columns res = Query.columns q \<and>
           length (QueryResult.rows res) = length frows \<and>
           (\<forall>i<length frows.
              QueryResult.rows res ! i = project_row (Query.columns q) (frows ! i) \<and>
              set (Object_keys (QueryResult.rows res ! i)) \<subseteq> set (Query.columns q) \<and>
              (\<forall>c\<in>set (Query.columns q). c \<noteq> js ''__proto__'' \<longrightarrow>
                 get (QueryResult.rows res ! i) c = Own (get (frows ! i) c)))"
proof -
  obtain frows where frows:
    "(case filter_opt q of
        None \<Rightarrow> frows = Database.rows db
      | Some f \<Rightarrow> filter_rows db (Database.rows db) f = Inr frows)"
  proof (cases "filter_opt q")
    case None
    then show ?thesis using that by simp
  next
    case (Some f)
    then show ?thesis
      using that filter_rows_total [OF assms(1,3) Some, of "Database.rows db"] assms(4) by auto
  qed
  let ?res = "\<lparr>QueryResult.columns = Query.columns q,
               QueryResult.rows = project frows (Query.columns q)\<rparr>"
  have run: "fst (query queryParser text db) = Inr ?res"
    using assms(2,3) frows by (simp add: query_cases split: option.splits)
  have "\<forall>i<length frows.
          QueryResult.rows ?res ! i = project_row (Query.columns q) (frows ! i) \<and>
          set (Object_keys (QueryResult.rows ?res ! i)) \<subseteq> set (Query.columns q) \<and>
          (\<forall>c\<in>set (Query.columns q). c \<noteq> js ''__proto__'' \<longrightarrow>
             get (QueryResult.rows ?res ! i) c = Own (get (frows ! i) c))"
    by (simp add: project_def project_row_get project_row_keys)
  then show ?thesis using frows run
    by (intro exI [of _ frows] exI [of _ ?res]) (simp add: project_def)
qed

text \<open>The test \<^verbatim>\<open>PROJECT title\<close>.\<close>

theorem projection_preserves_order_witness:
  "loadData books = Inr books_db \<and>
   validateQuery books_db \<lparr>Query.columns = [js ''title''], filter_opt = None\<rparr> = Inr () \<and>
   fst (query (parsed_as \<lparr>Query.columns = [js ''title''], filter_opt = None\<rparr>)
          (js ''PROJECT title'') books_db) =
     Inr \<lparr>QueryResult.columns = [js ''title''],
          QueryResult.rows =
            [[(js ''title'', Own (Str (js ''Game Programming Patterns'')))],
             [(js ''title'', Own (Str (js ''Exhalation'')))],
             [(js ''title'', Own (Str (js ''Crafting Interpreters'')))],
             [(js ''title'', Own (Str (js ''Python Distilled'')))],
             [(js ''title'', Own (Str (js ''The Maniac'')))]]\<rparr>"
proof -
  let ?q = "\<lparr>Query.columns = [js ''title''], filter_opt = None\<rparr>"
  have h1: "loadData books = Inr books_db" by (rule books_loadData)
  have h2: "parsed_as ?q (js ''PROJECT title'') = Inr ?q" by (simp add: parsed_as_def)
  have h3: "validateQuery books_db ?q = Inr ()"
    by (simp add: books_evals validateQuery_def)
  have h4: "\<forall>f. filter_opt ?q = Some f \<longrightarrow> QueryFilterOp (op f)" by simp
  have e: "map (project_row [js ''title'']) (Database.rows books_db) =
            [[(js ''title'', Own (Str (js ''Game Programming Patterns'')))],
             [(js ''title'', Own (Str (js ''Exhalation'')))],
             [(js ''title'', Own (Str (js ''Crafting Interpreters'')))],
             [(js ''title'', Own (Str (js ''Python Distilled'')))],
             [(js ''title'', Own (Str (js ''The Maniac'')))]]"
    by (simp add: books_evals project_row_def)
  from projection_preserves_order
      [of books books_db "parsed_as ?q" "js ''PROJECT title''" ?q, OF h1 h2 h3 h4]
  obtain frows res
    where f: "frows = Database.rows books_db"
      and r: "fst (query (parsed_as ?q) (js ''PROJECT title'') books_db) = Inr res"
      and c: "QueryResult.columns res = [js ''title'']"
      and l: "length (QueryResult.rows res) = length frows"
      and p: "\<forall>i<length frows. QueryResult.rows res ! i = project_row [js ''title''] (frows ! i)"
    by auto
  have "QueryResult.rows res = map (project_row [js ''title'']) frows"
    using l p by (intro nth_equalityI) simp_all
  then have "res = \<lparr>QueryResult.columns = [js ''title''],
                    QueryResult.rows = map (project_row [js ''title'']) (Database.rows books_db)\<rparr>"
    using c f by simp
  then show ?thesis using h1 h3 r e by simp
qed

section \<open>Queries do not change the table\<close>

text \<open>
  C8. Let a store hold a table: its schema object, its array of rows and the array of each
  of its indices. Run \<open>query\<close> in it, and run \<open>query\<close> with the same text again in the store
  the first run left, whether the runs return or throw. Then:

    \<^item> every object and every array of the store is, after the first run, at its address
      with its contents: what \<open>query\<close> allocated (the arrays of \<^verbatim>\<open>slice\<close> and \<^verbatim>\<open>map\<close>, the
      objects of \<open>project\<close>) comes after them, and the assignments of \<open>project\<close> went to
      those new objects;

    \<^item> the store the first run left holds the same table: schema, rows and indices;

    \<^item> the outcome of the first run, read from the store, is the outcome \<open>query\<close> computes
      on the table;

    \<^item> the second run has the same outcome, exception or columns and rows (in new
      objects, equal property by property), and leaves the result of the first as it was.

  The parser is a function of the text. Every table is held by some store
  (\<open>represents_exists\<close>).
\<close>

theorem query_leaves_table_unchanged:
  assumes "represents st this db"
    and "st_query queryParser text this st = (out1, st1)"
    and "st_query queryParser text this st1 = (out2, st2)"
  shows "take (length (objects st)) (objects st1) = objects st \<and>
         take (length (arrays st)) (arrays st1) = arrays st \<and>
         represents st1 this db \<and>
         outcome_in st1 out1 = Some (fst (query queryParser text db)) \<and>
         outcome_in st2 out2 = outcome_in st1 out1 \<and>
         outcome_in st2 out1 = outcome_in st1 out1"
proof -
  have 1: "preserved st st1" "outcome_in st1 out1 = Some (fst (query queryParser text db))"
    using st_query_refines [OF assms(1,2)] by simp_all
  have r1: "represents st1 this db" using 1(1) assms(1) by (rule preserved_represents)
  have 2: "preserved st1 st2" "outcome_in st2 out2 = Some (fst (query queryParser text db))"
    using st_query_refines [OF r1 assms(3)] by simp_all
  have 3: "outcome_in st2 out1 = Some (fst (query queryParser text db))"
    using 2(1) 1(2) by (rule preserved_outcome_in)
  show ?thesis using 1 r1 2(2) 3 by (simp add: preserved_def)
qed

text \<open>
  The test \<^verbatim>\<open>PROJECT title FILTER year = 2021\<close> on the table of the test suite. The first
  run allocates the array of \<^verbatim>\<open>slice\<close> (address 4), two objects (6 and 7) and the array of
  \<^verbatim>\<open>map\<close> (5); the second run allocates again, and returns the same two titles.
\<close>

theorem query_leaves_table_unchanged_witness:
  "represents books_store books_ref books_db \<and>
   st_query
     (parsed_as \<lparr>Query.columns = [js ''title''],
        filter_opt = Some \<lparr>QueryFilter.column = js ''year'', op = js ''='', operand = Num 2021\<rparr>\<rparr>)
     (js ''PROJECT title FILTER year = 2021'') books_ref books_store =
   (Inr \<lparr>result_columns = [js ''title''], result_rows = 5\<rparr>,
    books_store
      \<lparr>objects := objects books_store @
         [[(js ''title'', Own (Str (js ''Crafting Interpreters'')))],
          [(js ''title'', Own (Str (js ''Python Distilled'')))]],
       arrays := arrays books_store @ [[2, 3], [6, 7]]\<rparr>) \<and>
   represents
     (books_store
        \<lparr>objects := objects books_store @
           [[(js ''title'', Own (Str (js ''Crafting Interpreters'')))],
            [(js ''title'', Own (Str (js ''Python Distilled'')))]],
         arrays := arrays books_store @ [[2, 3], [6, 7]]\<rparr>)
     books_ref books_db \<and>
   outcome_in
     (books_store
        \<lparr>objects := objects books_store @
           [[(js ''title'', Own (Str (js ''Crafting Interpreters'')))],
            [(js ''title'', Own (Str (js ''Python Distilled'')))],
            [(js ''title'', Own (Str (js ''Crafting Interpreters'')))],
            [(js ''title'', Own (Str (js ''Python Distilled'')))]],
         arrays := arrays books_store @ [[2, 3], [6, 7], [2, 3], [8, 9]]\<rparr>)
     (Inr \<lparr>result_columns = [js ''title''], result_rows = 7\<rparr>) =
   Some (Inr \<lparr>QueryResult.columns = [js ''title''],
        QueryResult.rows =
          [[(js ''title'', Own (Str (js ''Crafting Interpreters'')))],
           [(js ''title'', Own (Str (js ''Python Distilled'')))]]\<rparr>)"
  using query_leaves_table_unchanged
      [OF books_represents books_st_query_eval books_st_query_again]
    books_represents books_st_query_eval books_query_2021
  by simp

section \<open>Cells\<close>

text \<open>
  C9, as the code has it. A cell is a number exactly when it is a non-empty string of
  decimal digits. The number is the double nearest to the integer \<open>n\<close> the digits denote:
  with \<open>m\<close> the 53-bit value nearest to \<open>n\<close> (of two nearest ones, the one divisible by the
  higher power of two), it is \<open>m\<close>, or \<^verbatim>\<open>Infinity\<close> when \<open>m\<close> is \<open>2 ^ 1024\<close> or more. It is
  \<open>n\<close> itself when \<open>n\<close> is at most \<open>2 ^ 53\<close>. Every other cell, the empty one included, is the
  text unchanged.
\<close>

theorem cast_classifies:
  "(s \<noteq> [] \<and> list_all isDigit s \<longrightarrow>
      (\<exists>m. cast s = Num (if 2 ^ 1024 \<le> m then \<infinity> else enat m) \<and> significant53 m \<and>
           (\<forall>d. significant53 d \<and> d \<noteq> m \<longrightarrow>
              \<bar>int (mathInt s) - int m\<bar> < \<bar>int (mathInt s) - int d\<bar> \<or>
              (\<bar>int (mathInt s) - int m\<bar> = \<bar>int (mathInt s) - int d\<bar> \<and>
               (\<exists>j. 2 ^ j dvd m \<and> \<not> 2 ^ j dvd d)))) \<and>
      (mathInt s \<le> 2 ^ 53 \<longrightarrow> cast s = Num (enat (mathInt s))))
   \<and> (\<not> (s \<noteq> [] \<and> list_all isDigit s) \<longrightarrow> cast s = Str s)"
proof (intro conjI impI)
  assume "s \<noteq> [] \<and> list_all isDigit s"
  then have c: "cast s = Num (Number_value (mathInt s))"
    by (simp add: cast_def test_digits_def parseInt10_def)
  from Number_value_nearest [of "mathInt s"] obtain m
    where m1: "Number_value (mathInt s) = (if 2 ^ 1024 \<le> m then \<infinity> else enat m)"
      and m2: "significant53 m"
      and m3: "\<forall>d. significant53 d \<and> d \<noteq> m \<longrightarrow>
              \<bar>int (mathInt s) - int m\<bar> < \<bar>int (mathInt s) - int d\<bar> \<or>
              (\<bar>int (mathInt s) - int m\<bar> = \<bar>int (mathInt s) - int d\<bar> \<and>
               (\<exists>j. 2 ^ j dvd m \<and> \<not> 2 ^ j dvd d))"
    by blast
  have "cast s = Num (if 2 ^ 1024 \<le> m then \<infinity> else enat m)"
    unfolding c m1 ..
  with m2 m3
  show "\<exists>m. cast s = Num (if 2 ^ 1024 \<le> m then \<infinity> else enat m) \<and> significant53 m \<and>
           (\<forall>d. significant53 d \<and> d \<noteq> m \<longrightarrow>
              \<bar>int (mathInt s) - int m\<bar> < \<bar>int (mathInt s) - int d\<bar> \<or>
              (\<bar>int (mathInt s) - int m\<bar> = \<bar>int (mathInt s) - int d\<bar> \<and>
               (\<exists>j. 2 ^ j dvd m \<and> \<not> 2 ^ j dvd d)))"
    by blast
next
  assume "s \<noteq> [] \<and> list_all isDigit s" and "mathInt s \<le> 2 ^ 53"
  then show "cast s = Num (enat (mathInt s))"
    by (simp add: cast_def test_digits_def parseInt10_def Number_value_exact)
next
  assume "\<not> (s \<noteq> [] \<and> list_all isDigit s)"
  then show "cast s = Str s" by (simp add: cast_def test_digits_def)
qed

text \<open>
  The cells \<^verbatim>\<open>1965\<close> and \<^verbatim>\<open>Dune\<close>; and \<^verbatim>\<open>9007199254740995\<close>, halfway between the 53-bit values
  \<^verbatim>\<open>9007199254740994\<close> and \<^verbatim>\<open>9007199254740996\<close>, which is read as the one divisible by 4.
\<close>

theorem cast_classifies_witness:
  "js ''1965'' \<noteq> [] \<and> list_all isDigit (js ''1965'') \<and> mathInt (js ''1965'') \<le> 2 ^ 53
   \<and> cast (js ''1965'') = Num 1965
   \<and> \<not> list_all isDigit (js ''Dune'') \<and> cast (js ''Dune'') = Str (js ''Dune'')
   \<and> list_all isDigit (js ''9007199254740995'')
   \<and> mathInt (js ''9007199254740995'') = 9007199254740995
   \<and> cast (js ''9007199254740995'') = Num (enat 9007199254740996)
   \<and> significant53 9007199254740994 \<and> significant53 9007199254740996
   \<and> (4::nat) dvd 9007199254740996 \<and> \<not> (4::nat) dvd 9007199254740994"
proof -
  have d: "js ''1965'' \<noteq> [] \<and> list_all isDigit (js ''1965'')"
    by (simp add: js_def isDigit_def)
  have v: "mathInt (js ''1965'') = 1965" by (simp add: js_def mathInt_def)
  have n': "\<not> list_all isDigit (js ''Dune'')"
    by (simp add: js_def isDigit_def)
  then have n: "\<not> (js ''Dune'' \<noteq> [] \<and> list_all isDigit (js ''Dune''))" by simp
  have "cast (js ''1965'') = Num (enat (mathInt (js ''1965'')))"
    using cast_classifies [of "js ''1965''"] d v by simp
  moreover have "cast (js ''Dune'') = Str (js ''Dune'')"
    using cast_classifies [of "js ''Dune''"] n by blast
  moreover have "list_all isDigit (js ''9007199254740995'')
     \<and> mathInt (js ''9007199254740995'') = 9007199254740995
     \<and> cast (js ''9007199254740995'') = Num (enat 9007199254740996)"
    by (simp add: cast_def test_digits_def parseInt10_def js_def isDigit_def mathInt_def
       Number_value_def bit_length_numeral bit_length_1)
  moreover have "significant53 9007199254740994 \<and> significant53 9007199254740996"
    by (simp add: significant53_def bit_length_numeral bit_length_1)
  moreover have "(4::nat) dvd 9007199254740996 \<and> \<not> (4::nat) dvd 9007199254740994"
    by simp
  ultimately show ?thesis using d v n' by (simp add: numeral_eq_enat)
qed

text \<open>
  C9 as stated fails beyond \<open>2 ^ 53\<close>: the digits \<^verbatim>\<open>9007199254740993\<close> denote \<open>2 ^ 53 + 1\<close> and
  are read as \<open>2 ^ 53\<close>, and the digits \<^verbatim>\<open>9223372036854775808\<close> are read as \<open>2 ^ 63\<close>, which no
  64-bit signed integer holds.
\<close>

theorem cast_inexact_counterexample:
  "js ''9007199254740993'' \<noteq> [] \<and> list_all isDigit (js ''9007199254740993'')
   \<and> mathInt (js ''9007199254740993'') = 9007199254740993
   \<and> cast (js ''9007199254740993'') = Num (enat 9007199254740992)
   \<and> list_all isDigit (js ''9223372036854775808'')
   \<and> cast (js ''9223372036854775808'') = Num (enat (2 ^ 63))"
  by (simp add: cast_def test_digits_def parseInt10_def js_def isDigit_def mathInt_def
       Number_value_def bit_length_numeral bit_length_1)

end
